theory Spec2Isabelle
  imports Main "HOL-Library.Multiset"
begin

section \<open>Dense arrays\<close>

text \<open>
  The value buffer of a factor is a numpy array. An array is modelled by its shape and
  its entries in C order (row major: the last axis varies fastest). Entries are taken in
  an arbitrary type with the arithmetic a lemma needs (integers in the examples);
  floating-point rounding is not modelled. Extents are natural numbers: the data model
  of the factor has cardinalities that are counts of states.
\<close>

record 'a ndarray =
  shape :: "nat list"
  data :: "'a list"

text \<open>Exceptions of the source, named as the specification names them where it does.\<close>

datatype 'v error =
    ShapeMismatch       \<comment> \<open>ValueError of \<open>ndarray.reshape\<close>: size and new shape disagree\<close>
  | ScopeMismatch       \<comment> \<open>AssertionError of \<open>get_value_for_state_vector\<close>\<close>
  | UnknownState        \<comment> \<open>ValueError of \<open>list.index\<close> on a label list\<close>
  | UnknownVariable 'v  \<comment> \<open>ValueError('{} not in scope') of \<open>marginalize\<close>\<close>
  | TypeMismatch        \<comment> \<open>AssertionError of \<open>product\<close>\<close>
  | ValueError          \<comment> \<open>any other ValueError (numpy axes, broadcasting, \<open>list.index\<close>)\<close>
  | IndexError
  | KeyError
  | TypeError
  | AttributeError

definition ndim :: "'a ndarray \<Rightarrow> nat" where
  "ndim a = length (shape a)"

definition size_nd :: "'a ndarray \<Rightarrow> nat" where
  "size_nd a = prod_list (shape a)"

text \<open>An array is well formed when it holds one entry for every index tuple.\<close>

definition nd_ok :: "'a ndarray \<Rightarrow> bool" where
  "nd_ok a \<longleftrightarrow> length (data a) = prod_list (shape a)"

text \<open>All index tuples of a shape, in C order.\<close>

fun all_indices :: "nat list \<Rightarrow> nat list list" where
  "all_indices [] = [[]]"
| "all_indices (n # ns) = concat (map (\<lambda>i. map ((#) i) (all_indices ns)) [0..<n])"

text \<open>The flat position of an index tuple in C order.\<close>

fun ravel :: "nat list \<Rightarrow> nat list \<Rightarrow> nat" where
  "ravel (n # ns) (i # js) = i * prod_list ns + ravel ns js"
| "ravel _ _ = 0"

definition valid_index :: "nat list \<Rightarrow> nat list \<Rightarrow> bool" where
  "valid_index shp idx \<longleftrightarrow> list_all2 (<) idx shp"

text \<open>The entry at a complete index tuple that is in range.\<close>

definition item :: "'a ndarray \<Rightarrow> nat list \<Rightarrow> 'a" where
  "item a idx = data a ! ravel (shape a) idx"

text \<open>The array of a given shape whose entry at every index tuple is given by a function.\<close>

definition tabulate :: "nat list \<Rightarrow> (nat list \<Rightarrow> 'a) \<Rightarrow> 'a ndarray" where
  "tabulate shp f = \<lparr>shape = shp, data = map f (all_indices shp)\<rparr>"

text \<open>
  \<open>np.array(values)\<close>: a flat Python list becomes a one-dimensional array; an array is
  copied.
\<close>

datatype 'a array_like = PyList "'a list" | NdArray "'a ndarray"

fun np_array :: "'a array_like \<Rightarrow> 'a ndarray" where
  "np_array (PyList xs) = \<lparr>shape = [length xs], data = xs\<rparr>"
| "np_array (NdArray a) = a"

text \<open>
  \<open>a.reshape(newshape)\<close> for a shape of natural numbers: the entries keep their C order;
  numpy raises ValueError when the sizes differ.
\<close>

definition reshape :: "'a ndarray \<Rightarrow> nat list \<Rightarrow> 'v error + 'a ndarray" where
  "reshape a shp =
     (if size_nd a = prod_list shp then Inr \<lparr>shape = shp, data = data a\<rparr>
      else Inl ShapeMismatch)"

text \<open>
  \<open>a[tuple(idx)]\<close> for a tuple of non-negative integers: too many indices or an index out
  of range raise IndexError; a complete tuple selects one entry (a zero-dimensional
  result), a shorter one the sub-array at that prefix.
\<close>

definition getitem :: "'a ndarray \<Rightarrow> nat list \<Rightarrow> 'v error + 'a ndarray" where
  "getitem a idx =
     (let k = length idx in
      if ndim a < k \<or> \<not> list_all2 (<) idx (take k (shape a)) then Inl IndexError
      else
        let rest = drop k (shape a);
            off = ravel (shape a) (idx @ replicate (ndim a - k) 0)
        in Inr \<lparr>shape = rest, data = take (prod_list rest) (drop off (data a))\<rparr>)"

text \<open>
  \<open>a[[slice(None)] * n + [np.newaxis] * k]\<close>, read as numpy read a list of slices when the
  source was written (as the tuple): \<open>k\<close> axes of extent 1 are inserted after the first
  \<open>n\<close> axes; more slices than axes raise IndexError. The entries keep their order.
\<close>

definition index_newaxis :: "'a ndarray \<Rightarrow> nat \<Rightarrow> nat \<Rightarrow> 'v error + 'a ndarray" where
  "index_newaxis a n k =
     (if ndim a < n then Inl IndexError
      else Inr \<lparr>shape = take n (shape a) @ replicate k 1 @ drop n (shape a), data = data a\<rparr>)"

text \<open>\<open>list.index\<close>: the first position of an element.\<close>

fun first_index :: "'b list \<Rightarrow> 'b \<Rightarrow> nat option" where
  "first_index [] x = None"
| "first_index (y # ys) x = (if x = y then Some 0 else map_option Suc (first_index ys x))"

definition list_index :: "'b list \<Rightarrow> 'b \<Rightarrow> 'v error + nat" where
  "list_index xs x = (case first_index xs x of None \<Rightarrow> Inl ValueError | Some i \<Rightarrow> Inr i)"

text \<open>A list comprehension whose element expression can raise: the first exception wins.\<close>

fun mapE :: "('b \<Rightarrow> 'e + 'c) \<Rightarrow> 'b list \<Rightarrow> 'e + 'c list" where
  "mapE f [] = Inr []"
| "mapE f (x # xs) =
     (case f x of Inl e \<Rightarrow> Inl e
      | Inr y \<Rightarrow> (case mapE f xs of Inl e \<Rightarrow> Inl e | Inr ys \<Rightarrow> Inr (y # ys)))"

text \<open>
  \<open>a.transpose(order)\<close>: axis \<open>j\<close> of the result is axis \<open>order[j]\<close> of \<open>a\<close>, so the entry of
  the result at \<open>idx\<close> is the entry of \<open>a\<close> whose coordinate on axis \<open>order[j]\<close> is \<open>idx[j]\<close>.
\<close>

definition transpose_nd :: "'a ndarray \<Rightarrow> nat list \<Rightarrow> 'a ndarray" where
  "transpose_nd a order =
     tabulate (map (\<lambda>j. shape a ! j) order)
       (\<lambda>idx. item a (map (\<lambda>i. idx ! the (first_index order i)) [0..<ndim a]))"

text \<open>\<open>list.insert(i, x)\<close>.\<close>

definition insert_at :: "nat \<Rightarrow> 'b \<Rightarrow> 'b list \<Rightarrow> 'b list" where
  "insert_at i x xs = take i xs @ x # drop i xs"

text \<open>
  \<open>np.moveaxis(a, source, destination)\<close> for lists of non-negative axes, as numpy
  computes it: the axes not named in \<open>source\<close> keep their order, then every pair
  \<open>(dest, src)\<close>, in increasing order of \<open>dest\<close>, inserts \<open>src\<close> at position \<open>dest\<close>; the
  result is the transpose by that order. An axis out of range, a repeated axis and lists
  of different lengths raise ValueError (AxisError is one).
\<close>

definition moveaxis :: "'a ndarray \<Rightarrow> nat list \<Rightarrow> nat list \<Rightarrow> 'v error + 'a ndarray" where
  "moveaxis a source destination =
     (if \<not> list_all (\<lambda>ax. ax < ndim a) (source @ destination) then Inl ValueError
      else if \<not> distinct source \<or> \<not> distinct destination then Inl ValueError
      else if length source \<noteq> length destination then Inl ValueError
      else
        let order0 = filter (\<lambda>n. n \<notin> set source) [0..<ndim a];
            order = foldl (\<lambda>ord (d, s). insert_at d s ord) order0
                      (sort_key fst (zip destination source))
        in Inr (transpose_nd a order))"

text \<open>
  Broadcasting: shapes are aligned at their last axes, the shorter one padded with
  extents 1 in front; two extents agree when they are equal or one of them is 1.
\<close>

definition pad_shape :: "nat \<Rightarrow> nat list \<Rightarrow> nat list" where
  "pad_shape n shp = replicate (n - length shp) 1 @ shp"

fun broadcast_extents :: "nat list \<Rightarrow> nat list \<Rightarrow> nat list option" where
  "broadcast_extents (m # ms) (n # ns) =
     (if m = n \<or> n = 1 then map_option ((#) m) (broadcast_extents ms ns)
      else if m = 1 then map_option ((#) n) (broadcast_extents ms ns)
      else None)"
| "broadcast_extents [] [] = Some []"
| "broadcast_extents _ _ = None"

definition broadcast_shapes :: "nat list \<Rightarrow> nat list \<Rightarrow> nat list option" where
  "broadcast_shapes s t =
     (let n = max (length s) (length t) in broadcast_extents (pad_shape n s) (pad_shape n t))"

text \<open>The index at which an operand of shape \<open>shp\<close> is read for the result index \<open>idx\<close>.\<close>

definition bindex :: "nat list \<Rightarrow> nat list \<Rightarrow> nat list" where
  "bindex shp idx =
     map2 (\<lambda>n i. if n = 1 then 0 else i) shp (drop (length idx - length shp) idx)"

text \<open>\<open>a * b\<close> on arrays: ValueError when the shapes cannot be broadcast together.\<close>

definition multiply :: "('a::times) ndarray \<Rightarrow> 'a ndarray \<Rightarrow> 'v error + 'a ndarray" where
  "multiply a b =
     (case broadcast_shapes (shape a) (shape b) of
        None \<Rightarrow> Inl ValueError
      | Some shp \<Rightarrow>
          Inr (tabulate shp
                (\<lambda>idx. item a (bindex (shape a) idx) * item b (bindex (shape b) idx))))"

text \<open>\<open>a * c\<close> for a Python number \<open>c\<close>.\<close>

definition scale :: "('a::times) ndarray \<Rightarrow> 'a \<Rightarrow> 'a ndarray" where
  "scale a c = \<lparr>shape = shape a, data = map (\<lambda>x. x * c) (data a)\<rparr>"

text \<open>
  A complete index of \<open>a\<close> from its coordinates on the kept axes and on the summed axes:
  the mask tells for every axis whether it is summed.
\<close>

fun weave :: "bool list \<Rightarrow> nat list \<Rightarrow> nat list \<Rightarrow> nat list" where
  "weave (True # m) ks (r # rs) = r # weave m ks rs"
| "weave (False # m) (k # ks) rs = k # weave m ks rs"
| "weave _ _ _ = []"

text \<open>
  \<open>np.sum(a, axis=tuple(axes))\<close> for non-negative axes: an axis out of range and a
  repeated axis raise ValueError; the result keeps the other axes in their order, and
  its entry at an index is the sum of the entries of \<open>a\<close> over all coordinates of the
  summed axes. With no axis the result has the shape and the entries of \<open>a\<close>.
\<close>

definition np_sum :: "('a::monoid_add) ndarray \<Rightarrow> nat list \<Rightarrow> 'v error + 'a ndarray" where
  "np_sum a axes =
     (if \<not> list_all (\<lambda>ax. ax < ndim a) axes then Inl ValueError
      else if \<not> distinct axes then Inl ValueError
      else
        let mask = map (\<lambda>i. i \<in> set axes) [0..<ndim a];
            kept = map (\<lambda>i. shape a ! i) (filter (\<lambda>i. i \<notin> set axes) [0..<ndim a]);
            summed = map (\<lambda>i. shape a ! i) (filter (\<lambda>i. i \<in> set axes) [0..<ndim a])
        in Inr (tabulate kept
                 (\<lambda>k. sum_list (map (\<lambda>r. item a (weave mask k r)) (all_indices summed)))))"

section \<open>The factor\<close>

text \<open>
  The attributes of \<open>DiscreteFactor\<close>. \<open>state_names\<close> is a dictionary from variables to
  label lists, or None.
\<close>

record ('v, 's, 'a) factor =
  variables :: "'v list"
  cardinality :: "nat list"
  values_buf :: "'a ndarray option"
  state_names :: "('v \<rightharpoonup> 's list) option"

text \<open>\<open>__init__\<close>.\<close>

definition init ::
  "'v list \<Rightarrow> nat list \<Rightarrow> 'a array_like option \<Rightarrow> ('v \<rightharpoonup> 's list) option
   \<Rightarrow> 'v error + ('v, 's, 'a) factor" where
  "init vars cards vals names =
     (case vals of
        None \<Rightarrow> Inr \<lparr>variables = vars, cardinality = cards, values_buf = None, state_names = names\<rparr>
      | Some v \<Rightarrow>
          (case reshape (np_array v) cards of
             Inl e \<Rightarrow> Inl e
           | Inr a \<Rightarrow>
               Inr \<lparr>variables = vars, cardinality = cards, values_buf = Some a,
                    state_names = names\<rparr>))"

text \<open>\<open>copy\<close>: a new factor built from the attributes; the deep copy of an immutable value is the value.\<close>

definition copy :: "('v, 's, 'a) factor \<Rightarrow> 'v error + ('v, 's, 'a) factor" where
  "copy self =
     init (variables self) (cardinality self) (map_option NdArray (values_buf self))
       (state_names self)"

text \<open>\<open>update_values\<close>: when the reshape raises, nothing has been assigned.\<close>

definition update_values ::
  "('v, 's, 'a) factor \<Rightarrow> 'a array_like \<Rightarrow> 'v error + ('v, 's, 'a) factor" where
  "update_values self new_values =
     (case reshape (np_array new_values) (cardinality self) of
        Inl e \<Rightarrow> Inl e
      | Inr a \<Rightarrow> Inr (self\<lparr>values_buf := Some a\<rparr>))"

text \<open>
  The loop of \<open>get_value_for_state_vector\<close>: for every variable of the scope, the index
  of its given state in its label list. The dictionary of states is an association list
  with distinct keys.
\<close>

fun state_coordinates ::
  "('v, 's, 'a) factor \<Rightarrow> ('v \<times> 's) list \<Rightarrow> 'v list \<Rightarrow> 'v error + nat list" where
  "state_coordinates self dict_of_states [] = Inr []"
| "state_coordinates self dict_of_states (var # vars) =
     (case map_of dict_of_states var of
        None \<Rightarrow> Inl KeyError
      | Some var_state \<Rightarrow>
          (case state_names self of
             None \<Rightarrow> Inl TypeError
           | Some names \<Rightarrow>
               (case names var of
                  None \<Rightarrow> Inl KeyError
                | Some labels \<Rightarrow>
                    (case first_index labels var_state of
                       None \<Rightarrow> Inl UnknownState
                     | Some idx_in_var_axis \<Rightarrow>
                         (case state_coordinates self dict_of_states vars of
                            Inl e \<Rightarrow> Inl e
                          | Inr rest \<Rightarrow> Inr (idx_in_var_axis # rest))))))"

text \<open>
  \<open>get_value_for_state_vector\<close>. Two sorted lists are equal exactly when the lists have
  the same elements with the same multiplicities.
\<close>

definition get_value_for_state_vector ::
  "('v, 's, 'a) factor \<Rightarrow> ('v \<times> 's) list \<Rightarrow> 'v error + 'a ndarray" where
  "get_value_for_state_vector self dict_of_states =
     (if mset (map fst dict_of_states) \<noteq> mset (variables self) then Inl ScopeMismatch
      else
        (case state_coordinates self dict_of_states (variables self) of
           Inl e \<Rightarrow> Inl e
         | Inr coordinates \<Rightarrow>
             (case values_buf self of
                None \<Rightarrow> Inl TypeError
              | Some a \<Rightarrow> getitem a coordinates)))"

text \<open>\<open>get_cardinality\<close>: the dictionary of the cardinalities of the given variables.\<close>

definition get_cardinality ::
  "('v, 's, 'a) factor \<Rightarrow> 'v list \<Rightarrow> 'v error + ('v \<times> nat) list" where
  "get_cardinality self vars =
     mapE (\<lambda>var.
        case first_index (variables self) var of
          None \<Rightarrow> Inl ValueError
        | Some i \<Rightarrow>
            if i < length (cardinality self) then Inr (var, cardinality self ! i)
            else Inl IndexError) vars"

text \<open>
  \<open>add_new_variables_from_other_factor\<close>. The source iterates over the Python set
  \<open>set(other.variables) - set(self.variables)\<close>; the order of that iteration is not fixed
  by the language, so it is a parameter: \<open>set_order\<close> rearranges the elements of the
  difference.
\<close>

definition extra_vars_of ::
  "('v list \<Rightarrow> 'v list) \<Rightarrow> ('v, 's, 'a) factor \<Rightarrow> ('v, 's, 'a) factor \<Rightarrow> 'v list" where
  "extra_vars_of set_order self other =
     set_order (remdups (filter (\<lambda>v. v \<notin> set (variables self)) (variables other)))"

definition add_new_variables_from_other_factor ::
  "('v list \<Rightarrow> 'v list) \<Rightarrow> ('v, 's, 'a) factor \<Rightarrow> ('v, 's, 'a) factor
   \<Rightarrow> 'v error + ('v, 's, 'a) factor" where
  "add_new_variables_from_other_factor set_order self other =
     (let extra_vars = extra_vars_of set_order self other in
      if length extra_vars = 0 then Inr self
      else
        (case values_buf self of
           None \<Rightarrow> Inl TypeError
         | Some a \<Rightarrow>
             (case index_newaxis a (length (variables self)) (length extra_vars) of
                Inl e \<Rightarrow> Inl e
              | Inr a' \<Rightarrow>
                  (case get_cardinality other extra_vars of
                     Inl e \<Rightarrow> Inl e
                   | Inr new_card_var \<Rightarrow>
                       (case mapE (\<lambda>var. case map_of new_card_var var of
                                          None \<Rightarrow> Inl KeyError | Some c \<Rightarrow> Inr c) extra_vars of
                          Inl e \<Rightarrow> Inl e
                        | Inr cards \<Rightarrow>
                            Inr (self\<lparr>values_buf := Some a',
                                      variables := variables self @ extra_vars,
                                      cardinality := cardinality self @ cards\<rparr>))))))"

text \<open>
  \<open>product\<close>. The second operand is a Python number, a factor or anything else; the
  result is a bare array for a number and a factor for a factor. In the factor case
  \<open>left\<close> and \<open>right\<close> are the two copies; \<open>right.values.ndim\<close> raises AttributeError
  when \<open>right\<close> has no values. The assignment to \<open>right.variables\<close> is left out: \<open>right\<close>
  is dropped when \<open>product\<close> returns, and nothing reads its variables after that line.
\<close>

datatype ('v, 's, 'a) operand = Number 'a | Factor "('v, 's, 'a) factor" | Other

datatype ('v, 's, 'a) product_result = Buffer "'a ndarray" | Fact "('v, 's, 'a) factor"

definition product_factors ::
  "('v list \<Rightarrow> 'v list) \<Rightarrow> ('v, 's, 'a::times) factor \<Rightarrow> ('v, 's, 'a) factor
   \<Rightarrow> 'v error + ('v, 's, 'a) factor" where
  "product_factors set_order left0 right0 =
     (case add_new_variables_from_other_factor set_order left0 right0 of
        Inl e \<Rightarrow> Inl e
      | Inr left \<Rightarrow>
     (case add_new_variables_from_other_factor set_order right0 left of
        Inl e \<Rightarrow> Inl e
      | Inr right \<Rightarrow>
     (case values_buf right of
        None \<Rightarrow> Inl AttributeError
      | Some right_values \<Rightarrow>
     (let source_axes = [0..<ndim right_values] in
      case mapE (list_index (variables right)) (variables left) of
        Inl e \<Rightarrow> Inl e
      | Inr destination_axes \<Rightarrow>
     (case moveaxis right_values source_axes destination_axes of
        Inl e \<Rightarrow> Inl e
      | Inr moved \<Rightarrow>
     (case values_buf left of
        None \<Rightarrow> Inl TypeError
      | Some left_values \<Rightarrow>
     (case multiply left_values moved of
        Inl e \<Rightarrow> Inl e
      | Inr p \<Rightarrow> Inr (left\<lparr>values_buf := Some p\<rparr>))))))))"

definition product ::
  "('v list \<Rightarrow> 'v list) \<Rightarrow> ('v, 's, 'a::times) factor \<Rightarrow> ('v, 's, 'a) operand
   \<Rightarrow> 'v error + ('v, 's, 'a) product_result" where
  "product set_order self other =
     (case copy self of
        Inl e \<Rightarrow> Inl e
      | Inr left \<Rightarrow>
          (case other of
             Number c \<Rightarrow>
               (case values_buf self of
                  None \<Rightarrow> Inl TypeError
                | Some a \<Rightarrow> Inr (Buffer (scale a c)))
           | Other \<Rightarrow> Inl TypeMismatch
           | Factor other_factor \<Rightarrow>
               (case copy other_factor of
                  Inl e \<Rightarrow> Inl e
                | Inr right \<Rightarrow>
                    (case product_factors set_order left right of
                       Inl e \<Rightarrow> Inl e
                     | Inr result \<Rightarrow> Inr (Fact result)))))"

text \<open>
  \<open>marginalize\<close>. The loop collects the axis of every variable to remove and raises at
  the first one that is not in scope; \<open>phi\<close> is a deep copy of \<open>self\<close>. The set difference
  of the positions, sorted, is the list of the positions that are not removed, in
  increasing order. For a factor without values numpy sums None, which it reads as an
  array without axes: over no axis the sum is None again, and any axis is out of range
  (AxisError, a ValueError).
\<close>

fun var_indexes_of :: "'v list \<Rightarrow> 'v list \<Rightarrow> 'v list \<Rightarrow> 'v error + nat list" where
  "var_indexes_of phi_variables self_variables [] = Inr []"
| "var_indexes_of phi_variables self_variables (var # vars) =
     (if var \<notin> set phi_variables then Inl (UnknownVariable var)
      else
        (case list_index self_variables var of
           Inl e \<Rightarrow> Inl e
         | Inr i \<Rightarrow>
             (case var_indexes_of phi_variables self_variables vars of
                Inl e \<Rightarrow> Inl e
              | Inr rest \<Rightarrow> Inr (i # rest))))"

definition marginalize ::
  "('v, 's, 'a::monoid_add) factor \<Rightarrow> 'v list \<Rightarrow> 'v error + ('v, 's, 'a) factor" where
  "marginalize self vars =
     (let phi = self in
      case var_indexes_of (variables phi) (variables self) vars of
        Inl e \<Rightarrow> Inl e
      | Inr var_indexes \<Rightarrow>
     (let index_to_keep = filter (\<lambda>i. i \<notin> set var_indexes) [0..<length (variables self)] in
      case mapE (\<lambda>index. if index < length (cardinality self)
                          then Inr (cardinality self ! index) else Inl IndexError)
             index_to_keep of
        Inl e \<Rightarrow> Inl e
      | Inr kept_cardinality \<Rightarrow>
     (case values_buf phi of
        None \<Rightarrow>
          (if var_indexes = []
           then Inr (phi\<lparr>variables := map (\<lambda>index. variables self ! index) index_to_keep,
                        cardinality := kept_cardinality\<rparr>)
           else Inl ValueError)
      | Some a \<Rightarrow>
     (case np_sum a var_indexes of
        Inl e \<Rightarrow> Inl e
      | Inr summed \<Rightarrow>
          Inr (phi\<lparr>variables := map (\<lambda>index. variables self ! index) index_to_keep,
                   cardinality := kept_cardinality,
                   values_buf := Some summed\<rparr>)))))"

text \<open>The invariants of the data model.\<close>

definition populated :: "('v, 's, 'a) factor \<Rightarrow> bool" where
  "populated f \<longleftrightarrow> values_buf f \<noteq> None"

definition shape_ok :: "('v, 's, 'a) factor \<Rightarrow> bool" where
  "shape_ok f \<longleftrightarrow>
     (case values_buf f of
        None \<Rightarrow> True
      | Some a \<Rightarrow> ndim a = length (variables f) \<and> shape a = cardinality f \<and> nd_ok a)"

definition invariant :: "('v, 's, 'a) factor \<Rightarrow> bool" where
  "invariant f \<longleftrightarrow>
     length (variables f) = length (cardinality f) \<and> distinct (variables f) \<and> shape_ok f"

section \<open>Objects and references\<close>

text \<open>
  The lists, the buffer and the dictionary of a factor are mutable Python objects, and an
  attribute holds a reference to one. Where a property is about which objects an
  operation touches, the operations are modelled on a store: one map from addresses to
  contents for every kind of object, and the next free address. A \<open>DiscreteFactor\<close>
  instance holds four references; the \<open>state_names\<close> dictionary maps a variable to the
  reference of its label list. Variable identifiers, numbers and labels are immutable
  values. An allocation takes the next free address, so addresses are never reused.
\<close>

record factor_obj =
  variables_ref :: nat
  cardinality_ref :: nat
  values_ref :: "nat option"
  state_names_ref :: "nat option"

record ('v, 's, 'a) heap =
  var_lists :: "nat \<Rightarrow> 'v list"
  card_lists :: "nat \<Rightarrow> nat list"
  label_lists :: "nat \<Rightarrow> 's list"
  arrays :: "nat \<Rightarrow> 'a ndarray"
  dicts :: "nat \<Rightarrow> ('v \<times> nat) list"
  factors :: "nat \<Rightarrow> factor_obj"
  next_addr :: nat

definition alloc_var_list ::
  "('v, 's, 'a) heap \<Rightarrow> 'v list \<Rightarrow> ('v, 's, 'a) heap \<times> nat" where
  "alloc_var_list h xs =
     (h\<lparr>var_lists := (var_lists h)(next_addr h := xs), next_addr := Suc (next_addr h)\<rparr>,
      next_addr h)"

definition alloc_card_list ::
  "('v, 's, 'a) heap \<Rightarrow> nat list \<Rightarrow> ('v, 's, 'a) heap \<times> nat" where
  "alloc_card_list h xs =
     (h\<lparr>card_lists := (card_lists h)(next_addr h := xs), next_addr := Suc (next_addr h)\<rparr>,
      next_addr h)"

definition alloc_label_list ::
  "('v, 's, 'a) heap \<Rightarrow> 's list \<Rightarrow> ('v, 's, 'a) heap \<times> nat" where
  "alloc_label_list h xs =
     (h\<lparr>label_lists := (label_lists h)(next_addr h := xs), next_addr := Suc (next_addr h)\<rparr>,
      next_addr h)"

definition alloc_array ::
  "('v, 's, 'a) heap \<Rightarrow> 'a ndarray \<Rightarrow> ('v, 's, 'a) heap \<times> nat" where
  "alloc_array h a =
     (h\<lparr>arrays := (arrays h)(next_addr h := a), next_addr := Suc (next_addr h)\<rparr>,
      next_addr h)"

definition alloc_dict ::
  "('v, 's, 'a) heap \<Rightarrow> ('v \<times> nat) list \<Rightarrow> ('v, 's, 'a) heap \<times> nat" where
  "alloc_dict h d =
     (h\<lparr>dicts := (dicts h)(next_addr h := d), next_addr := Suc (next_addr h)\<rparr>,
      next_addr h)"

definition alloc_factor ::
  "('v, 's, 'a) heap \<Rightarrow> factor_obj \<Rightarrow> ('v, 's, 'a) heap \<times> nat" where
  "alloc_factor h fo =
     (h\<lparr>factors := (factors h)(next_addr h := fo), next_addr := Suc (next_addr h)\<rparr>,
      next_addr h)"

text \<open>The factor that an instance stands for: its attributes, read through the references.\<close>

definition names_at :: "('v, 's, 'a) heap \<Rightarrow> nat \<Rightarrow> ('v \<rightharpoonup> 's list)" where
  "names_at h d = (\<lambda>v. map_option (label_lists h) (map_of (dicts h d) v))"

definition factor_at :: "('v, 's, 'a) heap \<Rightarrow> nat \<Rightarrow> ('v, 's, 'a) factor" where
  "factor_at h r =
     \<lparr>variables = var_lists h (variables_ref (factors h r)),
      cardinality = card_lists h (cardinality_ref (factors h r)),
      values_buf = map_option (arrays h) (values_ref (factors h r)),
      state_names = map_option (names_at h) (state_names_ref (factors h r))\<rparr>"

text \<open>
  The objects of a factor: the instance, its two lists, its buffer, its dictionary and
  the label lists of the dictionary.
\<close>

definition reach :: "('v, 's, 'a) heap \<Rightarrow> nat \<Rightarrow> nat set" where
  "reach h r =
     {r, variables_ref (factors h r), cardinality_ref (factors h r)}
     \<union> set_option (values_ref (factors h r))
     \<union> (case state_names_ref (factors h r) of
          None \<Rightarrow> {}
        | Some d \<Rightarrow> insert d (snd ` set (dicts h d)))"

text \<open>Two stores hold the same objects at the addresses of a set.\<close>

definition same_on :: "nat set \<Rightarrow> ('v, 's, 'a) heap \<Rightarrow> ('v, 's, 'a) heap \<Rightarrow> bool" where
  "same_on S h h' \<longleftrightarrow>
     (\<forall>a\<in>S. var_lists h' a = var_lists h a \<and> card_lists h' a = card_lists h a \<and>
            label_lists h' a = label_lists h a \<and> arrays h' a = arrays h a \<and>
            dicts h' a = dicts h a \<and> factors h' a = factors h a)"

text \<open>
  A store extends another one when every object of the first is in the second, unchanged:
  whatever happened in between allocated new objects and wrote only to new objects.
\<close>

definition extends :: "('v, 's, 'a) heap \<Rightarrow> ('v, 's, 'a) heap \<Rightarrow> bool" where
  "extends h h' \<longleftrightarrow> next_addr h \<le> next_addr h' \<and> same_on {..<next_addr h} h h'"

text \<open>The objects of a factor were allocated in the store.\<close>

definition allocated :: "('v, 's, 'a) heap \<Rightarrow> nat \<Rightarrow> bool" where
  "allocated h r \<longleftrightarrow> reach h r \<subseteq> {..<next_addr h}"

text \<open>
  \<open>copy.deepcopy\<close> of a \<open>state_names\<close> dictionary: a new dictionary with the same keys,
  whose label lists are new lists with the same labels. The memo of \<open>deepcopy\<close> maps a
  list that was already copied to its copy, so a label list that two variables share is
  copied once.
\<close>

fun deepcopy_items ::
  "('v, 's, 'a) heap \<Rightarrow> (nat \<times> nat) list \<Rightarrow> ('v \<times> nat) list
   \<Rightarrow> ('v, 's, 'a) heap \<times> ('v \<times> nat) list" where
  "deepcopy_items h memo [] = (h, [])"
| "deepcopy_items h memo ((k, l) # rest) =
     (case map_of memo l of
        Some l' \<Rightarrow>
          (let (h', rest') = deepcopy_items h memo rest in (h', (k, l') # rest'))
      | None \<Rightarrow>
          (let (h1, l') = alloc_label_list h (label_lists h l);
               (h', rest') = deepcopy_items h1 ((l, l') # memo) rest
           in (h', (k, l') # rest')))"

definition deepcopy_state_names ::
  "('v, 's, 'a) heap \<Rightarrow> nat option \<Rightarrow> ('v, 's, 'a) heap \<times> nat option" where
  "deepcopy_state_names h names =
     (case names of
        None \<Rightarrow> (h, None)
      | Some d \<Rightarrow>
          (let (h1, items) = deepcopy_items h [] (dicts h d);
               (h2, d') = alloc_dict h1 items
           in (h2, Some d')))"

text \<open>
  \<open>__init__\<close> on the store: \<open>list(variables)\<close> and \<open>list(cardinality)\<close> are new lists, the
  reshaped \<open>np.array(values)\<close> is a new array, and the reference \<open>state_names\<close> is kept
  as it is given. The arguments \<open>variables\<close>, \<open>cardinality\<close> and \<open>values\<close> are given by
  their contents.
\<close>

definition init_h ::
  "('v, 's, 'a) heap \<Rightarrow> 'v list \<Rightarrow> nat list \<Rightarrow> 'a array_like option \<Rightarrow> nat option
   \<Rightarrow> ('v, 's, 'a) heap \<times> ('v error + nat)" where
  "init_h h vars cards vals names =
     (let (h1, vl) = alloc_var_list h vars;
          (h2, cl) = alloc_card_list h1 cards
      in case vals of
           None \<Rightarrow>
             (let (h3, self) = alloc_factor h2
                    \<lparr>variables_ref = vl, cardinality_ref = cl, values_ref = None,
                     state_names_ref = names\<rparr>
              in (h3, Inr self))
         | Some v \<Rightarrow>
             (case reshape (np_array v) cards of
                Inl e \<Rightarrow> (h2, Inl e)
              | Inr a \<Rightarrow>
                  (let (h3, ar) = alloc_array h2 a;
                       (h4, self) = alloc_factor h3
                         \<lparr>variables_ref = vl, cardinality_ref = cl, values_ref = Some ar,
                          state_names_ref = names\<rparr>
                   in (h4, Inr self))))"

text \<open>\<open>copy\<close> on the store: the deep copy of \<open>state_names\<close> is made, then \<open>__init__\<close> runs.\<close>

definition copy_h ::
  "('v, 's, 'a) heap \<Rightarrow> nat \<Rightarrow> ('v, 's, 'a) heap \<times> ('v error + nat)" where
  "copy_h h self =
     (let fo = factors h self;
          (h1, names) = deepcopy_state_names h (state_names_ref fo)
      in init_h h1 (var_lists h1 (variables_ref fo)) (card_lists h1 (cardinality_ref fo))
           (map_option (\<lambda>r. NdArray (arrays h1 r)) (values_ref fo)) names)"

text \<open>
  An assignment of a newly built list or array to an attribute of an instance: the new
  object is allocated and the attribute is bound to it.
\<close>

definition assign_variables ::
  "('v, 's, 'a) heap \<Rightarrow> nat \<Rightarrow> 'v list \<Rightarrow> ('v, 's, 'a) heap" where
  "assign_variables h self xs =
     (let (h1, vl) = alloc_var_list h xs
      in h1\<lparr>factors := (factors h1)(self := (factors h1 self)\<lparr>variables_ref := vl\<rparr>)\<rparr>)"

definition assign_cardinality ::
  "('v, 's, 'a) heap \<Rightarrow> nat \<Rightarrow> nat list \<Rightarrow> ('v, 's, 'a) heap" where
  "assign_cardinality h self xs =
     (let (h1, cl) = alloc_card_list h xs
      in h1\<lparr>factors := (factors h1)(self := (factors h1 self)\<lparr>cardinality_ref := cl\<rparr>)\<rparr>)"

definition assign_values ::
  "('v, 's, 'a) heap \<Rightarrow> nat \<Rightarrow> 'a ndarray \<Rightarrow> ('v, 's, 'a) heap" where
  "assign_values h self a =
     (let (h1, ar) = alloc_array h a
      in h1\<lparr>factors := (factors h1)(self := (factors h1 self)\<lparr>values_ref := Some ar\<rparr>)\<rparr>)"

text \<open>\<open>update_values\<close> on the store: the attribute \<open>_values\<close> is bound to a new array.\<close>

definition update_values_h ::
  "('v, 's, 'a) heap \<Rightarrow> nat \<Rightarrow> 'a array_like \<Rightarrow> ('v, 's, 'a) heap \<times> ('v error + unit)" where
  "update_values_h h self new_values =
     (case reshape (np_array new_values) (card_lists h (cardinality_ref (factors h self))) of
        Inl e \<Rightarrow> (h, Inl e)
      | Inr a \<Rightarrow> (assign_values h self a, Inr ()))"

text \<open>
  \<open>copy.deepcopy\<close> of an instance: a new instance whose lists, buffer and dictionary are
  deep copies.
\<close>

definition deepcopy_factor :: "('v, 's, 'a) heap \<Rightarrow> nat \<Rightarrow> ('v, 's, 'a) heap \<times> nat" where
  "deepcopy_factor h self =
     (let fo = factors h self;
          (h1, vl) = alloc_var_list h (var_lists h (variables_ref fo));
          (h2, cl) = alloc_card_list h1 (card_lists h1 (cardinality_ref fo));
          (h3, ar) = (case values_ref fo of
                        None \<Rightarrow> (h2, None)
                      | Some r \<Rightarrow> (let (h', r') = alloc_array h2 (arrays h2 r) in (h', Some r')));
          (h4, names) = deepcopy_state_names h3 (state_names_ref fo)
      in alloc_factor h4
           \<lparr>variables_ref = vl, cardinality_ref = cl, values_ref = ar,
            state_names_ref = names\<rparr>)"

text \<open>
  \<open>marginalize\<close> on the store, statement by statement: the deep copy \<open>phi\<close>, the loop, the
  three assignments to attributes of \<open>phi\<close>.
\<close>

definition marginalize_h ::
  "('v, 's, 'a::monoid_add) heap \<Rightarrow> nat \<Rightarrow> 'v list \<Rightarrow> ('v, 's, 'a) heap \<times> ('v error + nat)" where
  "marginalize_h h self vars =
     (let (h1, phi) = deepcopy_factor h self;
          self_variables = var_lists h1 (variables_ref (factors h1 self))
      in case var_indexes_of (var_lists h1 (variables_ref (factors h1 phi))) self_variables vars of
           Inl e \<Rightarrow> (h1, Inl e)
         | Inr var_indexes \<Rightarrow>
     (let index_to_keep = filter (\<lambda>i. i \<notin> set var_indexes) [0..<length self_variables];
          h2 = assign_variables h1 phi (map (\<lambda>index. self_variables ! index) index_to_keep);
          self_cardinality = card_lists h2 (cardinality_ref (factors h2 self))
      in case mapE (\<lambda>index. if index < length self_cardinality
                             then Inr (self_cardinality ! index) else Inl IndexError)
                index_to_keep of
           Inl e \<Rightarrow> (h2, Inl e)
         | Inr kept_cardinality \<Rightarrow>
     (let h3 = assign_cardinality h2 phi kept_cardinality
      in case values_ref (factors h3 phi) of
           None \<Rightarrow> (if var_indexes = [] then (h3, Inr phi) else (h3, Inl ValueError))
         | Some ar \<Rightarrow>
     (case np_sum (arrays h3 ar) var_indexes of
        Inl e \<Rightarrow> (h3, Inl e)
      | Inr summed \<Rightarrow> (assign_values h3 phi summed, Inr phi)))))"

text \<open>
  A store with the factor of the specification's scenarios at address 6; the two
  variables have their own label lists.
\<close>

definition H_AB :: "(string, string, int) heap" where
  "H_AB =
     \<lparr>var_lists = (\<lambda>a. [])(0 := [''A'', ''B'']),
      card_lists = (\<lambda>a. [])(1 := [2, 2]),
      label_lists = (\<lambda>a. [])(3 := [''a0'', ''a1''], 4 := [''b0'', ''b1'']),
      arrays = (\<lambda>a. \<lparr>shape = [0], data = []\<rparr>)(2 := \<lparr>shape = [2, 2], data = [1, 2, 3, 4]\<rparr>),
      dicts = (\<lambda>a. [])(5 := [(''A'', 3), (''B'', 4)]),
      factors = (\<lambda>a. \<lparr>variables_ref = 0, cardinality_ref = 0, values_ref = None,
                       state_names_ref = None\<rparr>)
                (6 := \<lparr>variables_ref = 0, cardinality_ref = 1, values_ref = Some 2,
                       state_names_ref = Some 5\<rparr>),
      next_addr = 7\<rparr>"

section \<open>Example factors\<close>

text \<open>
  The factor of the specification's scenarios: variables A and B with two states each,
  flat values 1, 2, 3, 4 and state labels.
\<close>

definition F_AB :: "(string, string, int) factor" where
  "F_AB = \<lparr>variables = [''A'', ''B''], cardinality = [2, 2],
            values_buf = Some \<lparr>shape = [2, 2], data = [1, 2, 3, 4]\<rparr>,
            state_names = Some [''A'' \<mapsto> [''a0'', ''a1''], ''B'' \<mapsto> [''b0'', ''b1'']]\<rparr>"

definition F_C :: "(string, string, int) factor" where
  "F_C = \<lparr>variables = [''C''], cardinality = [2],
           values_buf = Some \<lparr>shape = [2], data = [10, 20]\<rparr>, state_names = None\<rparr>"

text \<open>Two factors that share the variable Y, and two more with three states for Y.\<close>

definition F_XY :: "(string, string, int) factor" where
  "F_XY = \<lparr>variables = [''X'', ''Y''], cardinality = [2, 2],
            values_buf = Some \<lparr>shape = [2, 2], data = [1, 2, 3, 4]\<rparr>, state_names = None\<rparr>"

definition F_YZ :: "(string, string, int) factor" where
  "F_YZ = \<lparr>variables = [''Y'', ''Z''], cardinality = [2, 2],
            values_buf = Some \<lparr>shape = [2, 2], data = [1, 2, 3, 4]\<rparr>, state_names = None\<rparr>"

definition G_XY :: "(string, string, int) factor" where
  "G_XY = \<lparr>variables = [''X'', ''Y''], cardinality = [2, 3],
            values_buf = Some \<lparr>shape = [2, 3], data = [1, 2, 3, 4, 5, 6]\<rparr>,
            state_names = None\<rparr>"

definition G_YZ :: "(string, string, int) factor" where
  "G_YZ = \<lparr>variables = [''Y'', ''Z''], cardinality = [3, 2],
            values_buf = Some \<lparr>shape = [3, 2], data = [1, 2, 3, 4, 5, 6]\<rparr>,
            state_names = None\<rparr>"

text \<open>A factor over Y and Z with three and four states.\<close>

definition K_YZ :: "(string, string, int) factor" where
  "K_YZ = \<lparr>variables = [''Y'', ''Z''], cardinality = [3, 4],
            values_buf = Some \<lparr>shape = [3, 4],
                                data = [1, 2, 3, 4, 5, 6, 7, 8, 9, 10, 11, 12]\<rparr>,
            state_names = None\<rparr>"

section \<open>Notions used to state the properties\<close>

text \<open>The elements of a list at the positions that a list of flags marks.\<close>

definition select :: "bool list \<Rightarrow> 'b list \<Rightarrow> 'b list" where
  "select bs xs = map snd (filter fst (zip bs xs))"

text \<open>
  A factor has state labels when \<open>state_names\<close> is a dictionary that gives every variable
  of the scope a label list with one label for every state.
\<close>

definition labelled :: "('v, 's, 'a) factor \<Rightarrow> ('v \<rightharpoonup> 's list) \<Rightarrow> bool" where
  "labelled f names \<longleftrightarrow>
     state_names f = Some names \<and>
     list_all2 (\<lambda>v c. case names v of None \<Rightarrow> False | Some ls \<Rightarrow> length ls = c)
       (variables f) (cardinality f)"

text \<open>The coordinate of a variable under an assignment of labels.\<close>

definition label_coordinate :: "('v \<rightharpoonup> 's list) \<Rightarrow> ('v \<times> 's) list \<Rightarrow> 'v \<Rightarrow> nat" where
  "label_coordinate names d v = the (first_index (the (names v)) (the (map_of d v)))"

text \<open>A variable whose given label is not in its label list.\<close>

definition unknown_label :: "('v \<rightharpoonup> 's list) \<Rightarrow> ('v \<times> 's) list \<Rightarrow> 'v \<Rightarrow> bool" where
  "unknown_label names d v \<longleftrightarrow> the (map_of d v) \<notin> set (the (names v))"

section \<open>Facts about index tuples\<close>

lemma length_all_indices: "length (all_indices shp) = prod_list shp"
proof (induction shp)
  case Nil
  show ?case by simp
next
  case (Cons n ns)
  have "length (concat (map (\<lambda>i. map ((#) i) (all_indices ns)) [0..<n]))
        = sum_list (map (\<lambda>i. prod_list ns) [0..<n])"
    by (simp add: length_concat comp_def Cons.IH)
  also have "\<dots> = n * prod_list ns"
    by (simp add: sum_list_triv)
  finally show ?case by simp
qed

lemma concat_blocks_length:
  "(\<And>k. k < n \<Longrightarrow> length (g k) = m) \<Longrightarrow> length (concat (map g [0..<n])) = n * m"
  by (induction n) simp_all

lemma concat_blocks_nth:
  "(\<And>k. k < n \<Longrightarrow> length (g k) = m) \<Longrightarrow> i < n \<Longrightarrow> j < m
   \<Longrightarrow> concat (map g [0..<n]) ! (i * m + j) = g i ! j"
proof (induction n)
  case 0
  then show ?case by simp
next
  case (Suc n)
  have len: "length (concat (map g [0..<n])) = n * m"
    using Suc.prems(1) by (simp add: concat_blocks_length)
  show ?case
  proof (cases "i < n")
    case True
    have "i * m + j < n * m"
    proof -
      have "i * m + j < i * m + m" using Suc.prems(3) by simp
      also have "\<dots> = Suc i * m" by simp
      also have "\<dots> \<le> n * m" using True by (intro mult_le_mono1) simp
      finally show ?thesis .
    qed
    then show ?thesis
      using Suc.IH [OF _ True Suc.prems(3)] Suc.prems(1) len
      by (simp add: nth_append)
  next
    case False
    then have "i = n" using Suc.prems(2) by simp
    then show ?thesis using len by (simp add: nth_append)
  qed
qed

lemma valid_index_Nil [simp]: "valid_index [] idx \<longleftrightarrow> idx = []"
  by (simp add: valid_index_def)

lemma valid_index_Cons:
  "valid_index (n # ns) idx \<longleftrightarrow> (\<exists>i js. idx = i # js \<and> i < n \<and> valid_index ns js)"
  by (cases idx) (simp_all add: valid_index_def)

lemma valid_index_length: "valid_index shp idx \<Longrightarrow> length idx = length shp"
  by (simp add: valid_index_def list_all2_lengthD)

lemma valid_index_nth: "valid_index shp idx \<Longrightarrow> k < length shp \<Longrightarrow> idx ! k < shp ! k"
  by (simp add: valid_index_def list_all2_conv_all_nth)

lemma valid_index_iff:
  "valid_index shp idx \<longleftrightarrow> length idx = length shp \<and> (\<forall>k<length shp. idx ! k < shp ! k)"
  by (auto simp: valid_index_def list_all2_conv_all_nth)

lemma ravel_less: "valid_index shp idx \<Longrightarrow> ravel shp idx < prod_list shp"
proof (induction shp arbitrary: idx)
  case Nil
  then show ?case by simp
next
  case (Cons n ns)
  then obtain i js where idx: "idx = i # js" and i: "i < n" and js: "valid_index ns js"
    by (auto simp: valid_index_Cons)
  have "i * prod_list ns + ravel ns js < i * prod_list ns + prod_list ns"
    using Cons.IH [OF js] by simp
  also have "\<dots> = Suc i * prod_list ns" by simp
  also have "\<dots> \<le> n * prod_list ns" using i by (intro mult_le_mono1) simp
  finally show ?case by (simp add: idx)
qed

lemma all_indices_ravel: "valid_index shp idx \<Longrightarrow> all_indices shp ! ravel shp idx = idx"
proof (induction shp arbitrary: idx)
  case Nil
  then show ?case by simp
next
  case (Cons n ns)
  then obtain i js where idx: "idx = i # js" and i: "i < n" and js: "valid_index ns js"
    by (auto simp: valid_index_Cons)
  have "concat (map (\<lambda>i. map ((#) i) (all_indices ns)) [0..<n]) ! (i * prod_list ns + ravel ns js)
        = map ((#) i) (all_indices ns) ! ravel ns js"
    by (rule concat_blocks_nth) (simp_all add: length_all_indices i ravel_less js)
  also have "\<dots> = i # js"
    using Cons.IH [OF js] ravel_less [OF js] by (simp add: length_all_indices)
  finally show ?case by (simp add: idx)
qed

lemma set_all_indices: "set (all_indices shp) = {idx. valid_index shp idx}"
proof (induction shp)
  case Nil
  show ?case by auto
next
  case (Cons n ns)
  show ?case
    by (auto simp: Cons.IH valid_index_Cons)
qed

lemma item_tabulate: "valid_index shp idx \<Longrightarrow> item (tabulate shp f) idx = f idx"
  by (simp add: item_def tabulate_def ravel_less length_all_indices all_indices_ravel)

lemma nd_ok_tabulate: "nd_ok (tabulate shp f)"
  by (simp add: nd_ok_def tabulate_def length_all_indices)

lemma shape_tabulate [simp]: "shape (tabulate shp f) = shp"
  by (simp add: tabulate_def)

lemma concat_shifted_ranges:
  "concat (map (\<lambda>i. map (\<lambda>q. i * m + q) [0..<m]) [0..<n]) = [0..<n * m]"
proof (induction n)
  case 0
  show ?case by simp
next
  case (Suc n)
  have "map (\<lambda>q. n * m + q) [0..<m] = [n * m..<n * m + m]"
    by (simp add: map_add_upt add.commute)
  moreover have "[0..<n * m] @ [n * m..<n * m + m] = [0..<n * m + m]"
    by (metis le_add1 upt_add_eq_append zero_le)
  ultimately show ?case using Suc.IH by (simp add: add.commute)
qed

lemma map_ravel_all_indices: "map (ravel shp) (all_indices shp) = [0..<prod_list shp]"
proof (induction shp)
  case Nil
  show ?case by simp
next
  case (Cons n ns)
  have "map (ravel (n # ns)) (all_indices (n # ns))
        = concat (map (\<lambda>i. map (\<lambda>js. i * prod_list ns + ravel ns js) (all_indices ns)) [0..<n])"
    by (simp add: map_concat comp_def)
  also have "\<dots> = concat (map (\<lambda>i. map (\<lambda>q. i * prod_list ns + q) (map (ravel ns) (all_indices ns))) [0..<n])"
    by (simp add: comp_def)
  also have "\<dots> = [0..<n * prod_list ns]"
    by (simp only: Cons.IH concat_shifted_ranges)
  finally show ?case by simp
qed

lemma map_item_all_indices:
  "nd_ok a \<Longrightarrow> map (item a) (all_indices (shape a)) = data a"
proof -
  assume ok: "nd_ok a"
  have "map (item a) (all_indices (shape a)) = map ((!) (data a)) (map (ravel (shape a)) (all_indices (shape a)))"
    by (simp add: item_def comp_def)
  also have "\<dots> = map ((!) (data a)) [0..<length (data a)]"
    using ok by (simp add: map_ravel_all_indices nd_ok_def)
  also have "\<dots> = data a" by (rule map_nth)
  finally show ?thesis .
qed

lemma ravel_last_step:
  "length idx + 1 = length shp \<Longrightarrow> ravel shp (idx @ [Suc j]) = Suc (ravel shp (idx @ [j]))"
proof (induction shp arbitrary: idx)
  case Nil
  then show ?case by simp
next
  case (Cons n ns)
  show ?case
  proof (cases idx)
    case Nil
    with Cons.prems show ?thesis by simp
  next
    case (Cons i js)
    with Cons.prems Cons.IH [of js] show ?thesis by simp
  qed
qed

section \<open>Construction and replacement of values\<close>

text \<open>
  C6. \<open>__init__\<close> with a flat list of values, and \<open>update_values\<close> with a flat list,
  raise the ValueError of the reshape (ShapeMismatch) exactly when the number of values
  differs from the product of the cardinalities. Otherwise the buffer has the
  cardinalities as its shape, so one axis per cardinality; read in the order of the
  index tuples in which the last coordinate varies fastest it gives back the flat list,
  and a step of the last coordinate is a step of one in the flat list.
\<close>

theorem construct_replace_shape_check:
  "init vars cards (Some (PyList xs)) names =
     (if length xs = prod_list cards
      then Inr \<lparr>variables = vars, cardinality = cards,
               values_buf = Some \<lparr>shape = cards, data = xs\<rparr>, state_names = names\<rparr>
      else Inl ShapeMismatch)
   \<and> update_values f (PyList xs) =
     (if length xs = prod_list (cardinality f)
      then Inr (f\<lparr>values_buf := Some \<lparr>shape = cardinality f, data = xs\<rparr>\<rparr>)
      else Inl ShapeMismatch)
   \<and> (length xs = prod_list cards \<longrightarrow>
        ndim \<lparr>shape = cards, data = xs\<rparr> = length cards
        \<and> map (item \<lparr>shape = cards, data = xs\<rparr>) (all_indices cards) = xs
        \<and> (\<forall>idx j. length idx + 1 = length cards \<longrightarrow>
              ravel cards (idx @ [Suc j]) = Suc (ravel cards (idx @ [j]))))"
proof -
  have a: "init vars cards (Some (PyList xs)) names =
     (if length xs = prod_list cards
      then Inr \<lparr>variables = vars, cardinality = cards,
               values_buf = Some \<lparr>shape = cards, data = xs\<rparr>, state_names = names\<rparr>
      else Inl ShapeMismatch)"
    by (simp add: init_def reshape_def size_nd_def)
  have b: "update_values f (PyList xs) =
     (if length xs = prod_list (cardinality f)
      then Inr (f\<lparr>values_buf := Some \<lparr>shape = cardinality f, data = xs\<rparr>\<rparr>)
      else Inl ShapeMismatch)"
    by (simp add: update_values_def reshape_def size_nd_def)
  have c: "length xs = prod_list cards \<Longrightarrow>
        map (item \<lparr>shape = cards, data = xs\<rparr>) (all_indices cards) = xs"
    using map_item_all_indices [of "\<lparr>shape = cards, data = xs\<rparr>"] by (simp add: nd_ok_def)
  show ?thesis using a b c by (simp add: ndim_def ravel_last_step)
qed


theorem construct_replace_shape_check_witness:
  "init [''A'', ''B''] [2, 2] (Some (PyList [1, 2, 3, 4 :: int])) None =
     (Inr \<lparr>variables = [''A'', ''B''], cardinality = [2, 2],
           values_buf = Some \<lparr>shape = [2, 2], data = [1, 2, 3, 4]\<rparr>, state_names = None\<rparr>
      :: string error + (string, string, int) factor)
   \<and> update_values F_C (PyList [5, 6, 7]) = Inl ShapeMismatch
   \<and> map (item \<lparr>shape = [2, 2], data = [1, 2, 3, 4 :: int]\<rparr>) (all_indices [2, 2])
       = [1, 2, 3, 4]"
proof -
  have one:
    "init [''A'', ''B''] [2, 2] (Some (PyList [1, 2, 3, 4 :: int])) None =
       (Inr \<lparr>variables = [''A'', ''B''], cardinality = [2, 2],
             values_buf = Some \<lparr>shape = [2, 2], data = [1, 2, 3, 4]\<rparr>, state_names = None\<rparr>
        :: string error + (string, string, int) factor)
     \<and> map (item \<lparr>shape = [2, 2], data = [1, 2, 3, 4 :: int]\<rparr>) (all_indices [2, 2])
         = [1, 2, 3, 4]"
    using construct_replace_shape_check
            [of "[''A'', ''B'']" "[2, 2]" "[1, 2, 3, 4 :: int]"
                "None :: (string \<rightharpoonup> string list) option" F_C]
    by simp
  have two: "update_values F_C (PyList [5, 6, 7]) = Inl ShapeMismatch"
    using construct_replace_shape_check
            [of "[''C'']" "[2]" "[5, 6, 7 :: int]"
                "None :: (string \<rightharpoonup> string list) option" F_C]
    by (simp add: F_C_def)
  show ?thesis using one two by simp
qed

section \<open>Facts about lists, selections and sums over axes\<close>

lemma first_index_None: "first_index xs x = None \<longleftrightarrow> x \<notin> set xs"
  by (induction xs) auto

lemma first_index_Some: "first_index xs x = Some i \<Longrightarrow> i < length xs \<and> xs ! i = x"
  by (induction xs arbitrary: i) (auto split: if_splits)

lemma first_index_nth: "distinct xs \<Longrightarrow> i < length xs \<Longrightarrow> first_index xs (xs ! i) = Some i"
proof (induction xs arbitrary: i)
  case Nil
  then show ?case by simp
next
  case (Cons y ys)
  show ?case
  proof (cases i)
    case 0
    then show ?thesis by simp
  next
    case (Suc j)
    with Cons.prems have "ys ! j \<noteq> y" by auto
    with Suc Cons show ?thesis by auto
  qed
qed

lemma first_index_mem: "x \<in> set xs \<Longrightarrow> \<exists>i. first_index xs x = Some i"
  using first_index_None [of xs x] by (cases "first_index xs x") auto

lemma select_Nil [simp]: "select [] xs = []" "select bs [] = []"
  by (simp_all add: select_def)

lemma select_Cons [simp]: "select (b # bs) (x # xs) = (if b then x # select bs xs else select bs xs)"
  by (simp add: select_def)

lemma select_append:
  "length bs = length xs \<Longrightarrow> select (bs @ cs) (xs @ ys) = select bs xs @ select cs ys"
  by (simp add: select_def)

lemma select_map_pred: "select (map P xs) xs = filter P xs"
  by (induction xs) simp_all

lemma select_all_True: "length bs = length xs \<Longrightarrow> (\<forall>b\<in>set bs. b) \<Longrightarrow> select bs xs = xs"
  by (induction bs xs rule: list_induct2) auto

lemma map_nth_filter_upt:
  "map (\<lambda>i. xs ! i) (filter P [0..<length xs]) = select (map P [0..<length xs]) xs"
proof (induction xs rule: rev_induct)
  case Nil
  show ?case by simp
next
  case (snoc x xs)
  have a: "map (\<lambda>i. (xs @ [x]) ! i) (filter P [0..<length xs]) = map (\<lambda>i. xs ! i) (filter P [0..<length xs])"
    by (rule map_cong) (auto simp: nth_append)
  show ?case
    using snoc.IH a by (simp add: select_append)
qed

lemma var_indexes_of_ok:
  "set vars \<subseteq> set sv \<Longrightarrow>
   var_indexes_of sv sv vars = Inr (map (\<lambda>v. the (first_index sv v)) vars)"
proof (induction vars)
  case Nil
  show ?case by simp
next
  case (Cons v vs)
  then obtain i where "first_index sv v = Some i"
    using first_index_mem [of v sv] by auto
  with Cons show ?case by (simp add: list_index_def)
qed

lemma var_indexes_of_unknown:
  "\<not> set vars \<subseteq> set sv \<Longrightarrow> \<exists>v. v \<in> set vars \<and> v \<notin> set sv \<and> var_indexes_of sv sv vars = Inl (UnknownVariable v)"
proof (induction vars)
  case Nil
  then show ?case by simp
next
  case (Cons v vs)
  show ?case
  proof (cases "v \<in> set sv")
    case False
    then show ?thesis by auto
  next
    case True
    then obtain i where i: "first_index sv v = Some i"
      using first_index_mem [of v sv] by auto
    from True Cons.prems have "\<not> set vs \<subseteq> set sv" by auto
    from Cons.IH [OF this] obtain w where "w \<in> set vs" "w \<notin> set sv"
      "var_indexes_of sv sv vs = Inl (UnknownVariable w)" by auto
    with True i show ?thesis by (auto simp: list_index_def)
  qed
qed

lemma weave_all_kept: "length k = n \<Longrightarrow> weave (replicate n False) k [] = k"
  by (induction k arbitrary: n) auto

lemma concat_single_block:
  "k < n \<Longrightarrow> concat (map (\<lambda>i. if i = k then g i else []) [0..<n]) = g k"
proof (induction n)
  case 0
  then show ?case by simp
next
  case (Suc n)
  show ?case
  proof (cases "k = n")
    case True
    have "concat (map (\<lambda>i. if i = k then g i else []) [0..<n]) = []"
      using True by (simp add: concat_eq_Nil_conv)
    with True show ?thesis by simp
  next
    case False
    with Suc show ?thesis by simp
  qed
qed

lemma filter_all_indices_weave:
  "length msk = length shp \<Longrightarrow> valid_index (select (map Not msk) shp) k \<Longrightarrow>
   filter (\<lambda>x. select (map Not msk) x = k) (all_indices shp)
   = map (weave msk k) (all_indices (select msk shp))"
proof (induction msk shp arbitrary: k rule: list_induct2)
  case Nil
  then show ?case by auto
next
  case (Cons b m n ns)
  show ?case
  proof (cases b)
    case True
    with Cons.prems have k: "valid_index (select (map Not m) ns) k" by simp
    have "filter (\<lambda>x. select (map Not (b # m)) x = k) (all_indices (n # ns))
        = concat (map (\<lambda>i. map ((#) i) (filter (\<lambda>x. select (map Not m) x = k) (all_indices ns))) [0..<n])"
      using True by (simp add: filter_concat comp_def filter_map)
    also have "\<dots> = concat (map (\<lambda>i. map ((#) i) (map (weave m k) (all_indices (select m ns)))) [0..<n])"
      by (simp only: Cons.IH [OF k])
    also have "\<dots> = map (weave (b # m) k) (all_indices (select (b # m) (n # ns)))"
      using True by (simp add: map_concat comp_def)
    finally show ?thesis .
  next
    case False
    with Cons.prems obtain k0 k' where k: "k = k0 # k'" "k0 < n" "valid_index (select (map Not m) ns) k'"
      by (auto simp: valid_index_Cons)
    have "filter (\<lambda>x. select (map Not (b # m)) x = k) (all_indices (n # ns))
        = concat (map (\<lambda>i. if i = k0 then map ((#) i) (filter (\<lambda>x. select (map Not m) x = k') (all_indices ns)) else []) [0..<n])"
      using False k(1) by (auto simp: filter_concat comp_def filter_map intro!: arg_cong [where f = concat])
    also have "\<dots> = map ((#) k0) (filter (\<lambda>x. select (map Not m) x = k') (all_indices ns))"
      using k(2) by (rule concat_single_block)
    also have "\<dots> = map ((#) k0) (map (weave m k') (all_indices (select m ns)))"
      by (simp only: Cons.IH [OF k(3)])
    also have "\<dots> = map (weave (b # m) k) (all_indices (select (b # m) (n # ns)))"
      using False k(1) by simp
    finally show ?thesis .
  qed
qed


lemma mapE_ok: "(\<And>x. x \<in> set xs \<Longrightarrow> f x = Inr (g x)) \<Longrightarrow> mapE f xs = Inr (map g xs)"
  by (induction xs) simp_all

lemma mapE_error: "mapE f xs = Inl e \<Longrightarrow> \<exists>x\<in>set xs. f x = Inl e"
  by (induction xs) (auto split: sum.splits)

lemma np_sum_error: "np_sum a axes = Inl e \<Longrightarrow> e = ValueError"
  by (auto simp: np_sum_def Let_def split: if_splits)

lemma np_sum_ok:
  assumes "list_all (\<lambda>ax. ax < ndim a) axes" "distinct axes"
    and msk: "msk = map (\<lambda>i. i \<in> set axes) [0..<ndim a]"
  shows "np_sum a axes =
           Inr (tabulate (select (map Not msk) (shape a))
                  (\<lambda>k. sum_list (map (\<lambda>r. item a (weave msk k r))
                                   (all_indices (select msk (shape a))))))"
proof -
  have n: "ndim a = length (shape a)" by (simp add: ndim_def)
  have kept: "map (\<lambda>i. shape a ! i) (filter (\<lambda>i. i \<notin> set axes) [0..<ndim a])
              = select (map Not msk) (shape a)"
    unfolding n msk by (simp add: map_nth_filter_upt comp_def)
  have summed: "map (\<lambda>i. shape a ! i) (filter (\<lambda>i. i \<in> set axes) [0..<ndim a])
              = select msk (shape a)"
    unfolding n msk by (simp add: map_nth_filter_upt)
  show ?thesis
    using assms(1,2) unfolding np_sum_def Let_def kept summed
    by (simp add: msk)
qed

lemma tabulate_cong:
  "(\<And>k. valid_index shp k \<Longrightarrow> f k = g k) \<Longrightarrow> tabulate shp f = tabulate shp g"
  by (simp add: tabulate_def set_all_indices)

lemma tabulate_item: "nd_ok a \<Longrightarrow> tabulate (shape a) (item a) = a"
  by (simp add: tabulate_def map_item_all_indices)

lemma np_sum_no_axes:
  fixes a :: "('a::monoid_add) ndarray"
  assumes "nd_ok a"
  shows "np_sum a [] = Inr a"
proof -
  have m: "map (\<lambda>i. i \<in> set ([] :: nat list)) [0..<ndim a] = replicate (ndim a) False"
    by (simp add: map_replicate_const)
  have s1: "select (map Not (replicate (ndim a) False)) (shape a) = shape a"
    by (rule select_all_True) (auto simp: ndim_def)
  have s2: "select (replicate (ndim a) False) (shape a) = []"
    by (auto simp: select_def filter_empty_conv dest!: set_zip_leftD)
  have "np_sum a [] = Inr (tabulate (shape a)
          (\<lambda>k. sum_list (map (\<lambda>r. item a (weave (replicate (ndim a) False) k r)) [[]])))"
    using np_sum_ok [of a "[]" "replicate (ndim a) False", unfolded s1 s2, OF _ _ m [symmetric]]
    by simp
  also have "tabulate (shape a)
          (\<lambda>k. sum_list (map (\<lambda>r. item a (weave (replicate (ndim a) False) k r)) [[]]))
        = tabulate (shape a) (item a)"
    by (rule tabulate_cong) (simp add: weave_all_kept valid_index_length ndim_def)
  finally show ?thesis using assms by (simp add: tabulate_item)
qed

lemma marginalize_empty:
  fixes F :: "('v, 's, 'a::monoid_add) factor"
  assumes "invariant F" "values_buf F = Some a"
  shows "marginalize F [] = Inr F"
proof -
  have ok: "nd_ok a" and len: "length (variables F) = length (cardinality F)"
    using assms by (simp_all add: invariant_def shape_ok_def)
  have cards: "mapE (\<lambda>index. if index < length (cardinality F)
                          then Inr (cardinality F ! index) else Inl IndexError)
             [0..<length (variables F)] = (Inr (map (\<lambda>i. cardinality F ! i) [0..<length (variables F)]) :: 'v error + nat list)"
    by (rule mapE_ok) (simp add: len)
  show ?thesis
    unfolding marginalize_def Let_def
    using ok assms(2) by (simp add: cards np_sum_no_axes map_nth) (simp add: len map_nth)
qed


lemma marginalize_unknown:
  "\<not> set R \<subseteq> set (variables F) \<Longrightarrow>
   \<exists>v. v \<in> set R \<and> v \<notin> set (variables F) \<and> marginalize F R = Inl (UnknownVariable v)"
  using var_indexes_of_unknown [of R "variables F"]
  by (auto simp: marginalize_def Let_def)

lemma marginalize_known:
  assumes "set R \<subseteq> set (variables F)"
  shows "marginalize F R \<noteq> Inl (UnknownVariable v)"
proof -
  have vi: "var_indexes_of (variables F) (variables F) R
            = Inr (map (\<lambda>v. the (first_index (variables F) v)) R)"
    using assms by (rule var_indexes_of_ok)
  show ?thesis
    unfolding marginalize_def Let_def vi
    by (auto split: sum.splits option.splits dest!: mapE_error np_sum_error split: if_splits)
qed

lemma removed_axes:
  assumes d: "distinct vars" and sub: "set R \<subseteq> set vars" and dR: "distinct R"
  defines "axes \<equiv> map (\<lambda>v. the (first_index vars v)) R"
  shows "list_all (\<lambda>ax. ax < length vars) axes"
    and "distinct axes"
    and "map (\<lambda>i. i \<in> set axes) [0..<length vars] = map (\<lambda>v. v \<in> set R) vars"
    and "map (\<lambda>i. i \<notin> set axes) [0..<length vars] = map (\<lambda>v. v \<notin> set R) vars"
proof -
  have idx: "the (first_index vars v) < length vars \<and> vars ! the (first_index vars v) = v"
    if "v \<in> set R" for v
  proof -
    from that sub obtain i where i: "first_index vars v = Some i"
      using first_index_mem [of v vars] by auto
    with first_index_Some [OF i] show ?thesis by simp
  qed
  show "list_all (\<lambda>ax. ax < length vars) axes"
    by (simp add: axes_def list_all_iff idx)
  have "inj_on (\<lambda>v. the (first_index vars v)) (set R)"
  proof (rule inj_onI)
    fix v w assume v: "v \<in> set R" and w: "w \<in> set R"
      and e: "the (first_index vars v) = the (first_index vars w)"
    have "v = vars ! the (first_index vars v)" using idx [OF v] by simp
    also have "\<dots> = w" using idx [OF w] e by simp
    finally show "v = w" .
  qed
  then show "distinct axes" using dR by (simp add: axes_def distinct_map)
  have mem: "i \<in> set axes \<longleftrightarrow> vars ! i \<in> set R" if "i < length vars" for i
  proof
    assume "i \<in> set axes"
    then obtain v where "v \<in> set R" "i = the (first_index vars v)"
      by (auto simp: axes_def)
    then show "vars ! i \<in> set R" using idx by simp
  next
    assume r: "vars ! i \<in> set R"
    have "first_index vars (vars ! i) = Some i" using d that by (rule first_index_nth)
    then have "i = the (first_index vars (vars ! i))" by simp
    with r show "i \<in> set axes" by (auto simp: axes_def)
  qed
  show "map (\<lambda>i. i \<in> set axes) [0..<length vars] = map (\<lambda>v. v \<in> set R) vars"
    by (rule nth_equalityI) (simp_all add: mem)
  show "map (\<lambda>i. i \<notin> set axes) [0..<length vars] = map (\<lambda>v. v \<notin> set R) vars"
    by (rule nth_equalityI) (simp_all add: mem)
qed


lemma F_AB_invariant: "invariant F_AB"
  by (simp add: F_AB_def invariant_def shape_ok_def nd_ok_def ndim_def)

lemma marginalize_result:
  fixes F :: "('v, 's, 'a::monoid_add) factor"
  assumes "invariant F" and "values_buf F = Some a"
    and "set R \<subseteq> set (variables F)" and "distinct R"
  shows "marginalize F R =
           Inr (F\<lparr>variables := filter (\<lambda>v. v \<notin> set R) (variables F),
                  cardinality := select (map (\<lambda>v. v \<notin> set R) (variables F)) (cardinality F),
                  values_buf := Some
                    (tabulate (select (map (\<lambda>v. v \<notin> set R) (variables F)) (cardinality F))
                       (\<lambda>k. sum_list (map (item a)
                              (filter (\<lambda>x. select (map (\<lambda>v. v \<notin> set R) (variables F)) x = k)
                                 (all_indices (cardinality F))))))\<rparr>)"
proof -
  define vars where "vars = variables F"
  define cards where "cards = cardinality F"
  define axes where "axes = map (\<lambda>v. the (first_index vars v)) R"
  define keep where "keep = map (\<lambda>v. v \<notin> set R) vars"
  define msk where "msk = map (\<lambda>v. v \<in> set R) vars"
  have len: "length vars = length cards" and d: "distinct vars"
    and shp: "shape a = cards" and nd: "ndim a = length vars"
    using assms(1,2) by (simp_all add: invariant_def shape_ok_def vars_def cards_def)
  have sub: "set R \<subseteq> set vars" using assms(3) by (simp add: vars_def)
  note ax = removed_axes [OF d sub assms(4), folded axes_def]
  have vi: "var_indexes_of vars vars R = Inr axes"
    using sub unfolding axes_def by (rule var_indexes_of_ok)
  have keep_idx: "filter (\<lambda>i. i \<notin> set axes) [0..<length vars]
                  = filter (\<lambda>i. i \<notin> set axes) [0..<length vars]" ..
  have kv: "map (\<lambda>index. vars ! index) (filter (\<lambda>i. i \<notin> set axes) [0..<length vars])
            = filter (\<lambda>v. v \<notin> set R) vars"
    by (simp add: map_nth_filter_upt ax(4) select_map_pred)
  have kc: "map (\<lambda>index. cards ! index) (filter (\<lambda>i. i \<notin> set axes) [0..<length vars])
            = select keep cards"
    unfolding len by (simp add: map_nth_filter_upt ax(4) [unfolded len] keep_def)
  have cardsE: "mapE (\<lambda>index. if index < length cards then Inr (cards ! index) else Inl IndexError)
                  (filter (\<lambda>i. i \<notin> set axes) [0..<length vars])
                = (Inr (select keep cards) :: 'v error + nat list)"
    unfolding kc [symmetric] by (rule mapE_ok) (simp add: len)
  have notmsk: "map Not msk = keep" by (simp add: msk_def keep_def comp_def)
  have sum: "np_sum a axes =
           (Inr (tabulate (select keep cards)
                  (\<lambda>k. sum_list (map (\<lambda>r. item a (weave msk k r))
                                   (all_indices (select msk cards))))) :: 'v error + 'a ndarray)"
  proof -
    have m: "msk = map (\<lambda>i. i \<in> set axes) [0..<ndim a]"
      unfolding nd msk_def using ax(3) by simp
    have l: "list_all (\<lambda>ax. ax < ndim a) axes" unfolding nd by (rule ax(1))
    show ?thesis
      using np_sum_ok [OF l ax(2) m] unfolding shp notmsk .
  qed
  have tab: "tabulate (select keep cards)
                  (\<lambda>k. sum_list (map (\<lambda>r. item a (weave msk k r))
                                   (all_indices (select msk cards))))
           = tabulate (select keep cards)
                  (\<lambda>k. sum_list (map (item a) (filter (\<lambda>x. select keep x = k) (all_indices cards))))"
  proof (rule tabulate_cong)
    fix k assume "valid_index (select keep cards) k"
    then have "filter (\<lambda>x. select (map Not msk) x = k) (all_indices cards)
               = map (weave msk k) (all_indices (select msk cards))"
      unfolding notmsk [symmetric]
      by (intro filter_all_indices_weave) (simp_all add: msk_def len)
    then show "sum_list (map (\<lambda>r. item a (weave msk k r)) (all_indices (select msk cards)))
             = sum_list (map (item a) (filter (\<lambda>x. select keep x = k) (all_indices cards)))"
      by (simp add: notmsk comp_def)
  qed
  note vi' = vi [unfolded vars_def]
  note cardsE' = cardsE [unfolded vars_def cards_def keep_def]
  note sum' = sum [unfolded tab, unfolded vars_def cards_def keep_def]
  note kv' = kv [unfolded vars_def]
  show ?thesis
    unfolding marginalize_def Let_def vi'
    by (simp add: cardsE' assms(2) sum' kv')
qed


lemma length_select_map:
  "length xs = length ys \<Longrightarrow> length (select (map P xs) ys) = length (filter P xs)"
  by (induction xs ys rule: list_induct2) simp_all

lemma marginalize_invariant:
  fixes F :: "('v, 's, 'a::monoid_add) factor"
  assumes inv: "invariant F" and v: "values_buf F = Some a"
    and sub: "set R \<subseteq> set (variables F)" and d: "distinct R"
    and m: "marginalize F R = Inr G"
  shows "invariant G"
proof -
  have len: "length (variables F) = length (cardinality F)" and dv: "distinct (variables F)"
    using inv by (simp_all add: invariant_def)
  from marginalize_result [OF inv v sub d] m
  have G: "variables G = filter (\<lambda>v. v \<notin> set R) (variables F)"
    "cardinality G = select (map (\<lambda>v. v \<notin> set R) (variables F)) (cardinality F)"
    "\<exists>f. values_buf G = Some (tabulate (cardinality G) f)"
    by auto
  from G(3) obtain f where f: "values_buf G = Some (tabulate (cardinality G) f)" ..
  show ?thesis
    unfolding invariant_def shape_ok_def f
    using dv by (simp add: G(1,2) ndim_def nd_ok_tabulate length_select_map [OF len])
qed

section \<open>Marginalization\<close>





section \<open>Lookup by state labels\<close>

lemma getitem_full:
  assumes "nd_ok a" "valid_index (shape a) idx"
  shows "getitem a idx = Inr \<lparr>shape = [], data = [item a idx]\<rparr>"
proof -
  have len: "length idx = length (shape a)" using assms(2) by (rule valid_index_length)
  have off: "ravel (shape a) idx < length (data a)"
    using ravel_less [OF assms(2)] assms(1) by (simp add: nd_ok_def)
  have "take (Suc 0) (drop (ravel (shape a) idx) (data a)) = [data a ! ravel (shape a) idx]"
    using off by (simp add: take_Suc_conv_app_nth)
  then show ?thesis
    using assms(2) by (simp add: getitem_def Let_def ndim_def len valid_index_def item_def)
qed

lemma state_coordinates_result:
  assumes names: "state_names f = Some names"
    and keys: "\<And>v. v \<in> set vs \<Longrightarrow> map_of d v \<noteq> None \<and> names v \<noteq> None"
  shows "state_coordinates f d vs =
           (if \<exists>v\<in>set vs. unknown_label names d v then Inl UnknownState
            else Inr (map (label_coordinate names d) vs))"
  using keys
proof (induction vs)
  case Nil
  show ?case by simp
next
  case (Cons v vs)
  from Cons.prems [of v] obtain s ls where s: "map_of d v = Some s" and ls: "names v = Some ls"
    by auto
  have rest: "state_coordinates f d vs =
           (if \<exists>v\<in>set vs. unknown_label names d v then Inl UnknownState
            else Inr (map (label_coordinate names d) vs))"
    using Cons.IH Cons.prems by simp
  show ?case
  proof (cases "first_index ls s")
    case None
    then have "unknown_label names d v"
      by (simp add: unknown_label_def s ls first_index_None)
    with None show ?thesis by (simp add: s ls names)
  next
    case (Some i)
    then have "\<not> unknown_label names d v"
      using first_index_None [of ls s] by (simp add: unknown_label_def s ls)
    moreover have "label_coordinate names d v = i"
      by (simp add: label_coordinate_def s ls Some)
    ultimately show ?thesis
      using Some rest by (simp add: s ls names)
  qed
qed

text \<open>
  C5. For a populated factor that satisfies the invariants and has state labels, and a
  dictionary of states (its keys are distinct, as the keys of a dictionary are):
  \<open>get_value_for_state_vector\<close> raises its AssertionError (ScopeMismatch) when the keys
  are not exactly the variables of the scope; otherwise it raises the ValueError of
  \<open>list.index\<close> (UnknownState) when the label given for some variable is not in that
  variable's label list; otherwise it returns the entry of the buffer at the
  coordinates obtained by resolving every variable's label to its index in
  \<open>state_names\<close>. For the factor of the specification the assignment A = a1, B = b0
  gives 3.
\<close>

theorem value_for_assignment:
  assumes inv: "invariant f" and vals: "values_buf f = Some a"
    and lab: "labelled f names" and dict: "distinct (map fst d)"
  shows "get_value_for_state_vector f d =
           (if set (map fst d) \<noteq> set (variables f) then Inl ScopeMismatch
            else if \<exists>v\<in>set (variables f). unknown_label names d v then Inl UnknownState
            else Inr \<lparr>shape = [],
                      data = [item a (map (label_coordinate names d) (variables f))]\<rparr>)"
proof (cases "set (map fst d) = set (variables f)")
  case False
  then have "mset (map fst d) \<noteq> mset (variables f)"
    by (metis set_mset_mset)
  with False show ?thesis by (simp add: get_value_for_state_vector_def)
next
  case True
  have dv: "distinct (variables f)" using inv by (simp add: invariant_def)
  have m: "mset (map fst d) = mset (variables f)"
    by (rule iffD1 [OF set_eq_iff_mset_eq_distinct [OF dict dv] True])
  have names: "state_names f = Some names" using lab by (simp add: labelled_def)
  have l2: "list_all2 (\<lambda>v c. case names v of None \<Rightarrow> False | Some ls \<Rightarrow> length ls = c)
       (variables f) (cardinality f)" using lab by (simp add: labelled_def)
  have keys: "map_of d v \<noteq> None \<and> names v \<noteq> None" if "v \<in> set (variables f)" for v
  proof -
    from that True have "v \<in> fst ` set d" by auto
    then have "map_of d v \<noteq> None" by (simp add: map_of_eq_None_iff)
    moreover from that obtain i where "i < length (variables f)" "variables f ! i = v"
      by (auto simp: in_set_conv_nth)
    with l2 have "names v \<noteq> None"
      by (auto simp: list_all2_conv_all_nth split: option.splits)
    ultimately show ?thesis by simp
  qed
  note sc = state_coordinates_result [OF names keys]
  show ?thesis
  proof (cases "\<exists>v\<in>set (variables f). unknown_label names d v")
    case bad: True
    then show ?thesis
      using True m sc [of "variables f"] by (simp add: get_value_for_state_vector_def)
  next
    case good: False
    have shp: "shape a = cardinality f" and ok: "nd_ok a"
      using inv vals by (simp_all add: invariant_def shape_ok_def)
    have len: "length (variables f) = length (cardinality f)"
      using inv by (simp add: invariant_def)
    have "valid_index (shape a) (map (label_coordinate names d) (variables f))"
      unfolding valid_index_iff shp
    proof (intro conjI allI impI)
      show "length (map (label_coordinate names d) (variables f)) = length (cardinality f)"
        by (simp add: len)
    next
      fix k assume k: "k < length (cardinality f)"
      define v where "v = variables f ! k"
      have v: "v \<in> set (variables f)" using k len by (simp add: v_def)
      from l2 k len obtain ls where ls: "names v = Some ls" "length ls = cardinality f ! k"
        by (auto simp: list_all2_conv_all_nth v_def split: option.splits)
      from keys [OF v] obtain s where s: "map_of d v = Some s" by auto
      from good v have "s \<in> set ls" by (auto simp: unknown_label_def s ls)
      then obtain i where i: "first_index ls s = Some i"
        using first_index_mem by fastforce
      have "label_coordinate names d v < length ls"
        using first_index_Some [OF i] by (simp add: label_coordinate_def s ls i)
      then show "map (label_coordinate names d) (variables f) ! k < cardinality f ! k"
        using k len by (simp add: v_def ls)
    qed
    from getitem_full [OF ok this] show ?thesis
      using True m good sc [of "variables f"] vals
      by (simp add: get_value_for_state_vector_def)
  qed
qed

theorem value_for_assignment_witness:
  "invariant F_AB \<and> labelled F_AB [''A'' \<mapsto> [''a0'', ''a1''], ''B'' \<mapsto> [''b0'', ''b1'']] \<and>
   distinct (map fst [(''A'', ''a1''), (''B'', ''b0'')]) \<and>
   get_value_for_state_vector F_AB [(''A'', ''a1''), (''B'', ''b0'')]
     = Inr \<lparr>shape = [], data = [3]\<rparr> \<and>
   get_value_for_state_vector F_AB [(''A'', ''a1'')] = Inl ScopeMismatch \<and>
   get_value_for_state_vector F_AB [(''A'', ''a1''), (''B'', ''b7'')] = Inl UnknownState"
proof -
  have v: "values_buf F_AB = Some \<lparr>shape = [2, 2], data = [1, 2, 3, 4]\<rparr>"
    by (simp add: F_AB_def)
  have l: "labelled F_AB [''A'' \<mapsto> [''a0'', ''a1''], ''B'' \<mapsto> [''b0'', ''b1'']]"
    by (simp add: F_AB_def labelled_def)
  have one: "get_value_for_state_vector F_AB [(''A'', ''a1''), (''B'', ''b0'')]
     = Inr \<lparr>shape = [], data = [3]\<rparr>"
    using value_for_assignment [OF F_AB_invariant v l, of "[(''A'', ''a1''), (''B'', ''b0'')]"]
    by (simp add: F_AB_def unknown_label_def label_coordinate_def item_def)
  have two: "get_value_for_state_vector F_AB [(''A'', ''a1'')] = Inl ScopeMismatch"
    using value_for_assignment [OF F_AB_invariant v l, of "[(''A'', ''a1'')]"]
    by (simp add: F_AB_def)
  have three: "get_value_for_state_vector F_AB [(''A'', ''a1''), (''B'', ''b7'')] = Inl UnknownState"
    using value_for_assignment [OF F_AB_invariant v l, of "[(''A'', ''a1''), (''B'', ''b7'')]"]
    by (simp add: F_AB_def unknown_label_def)
  show ?thesis using F_AB_invariant l one two three by simp
qed


section \<open>Construction, replacement and copy keep the invariants\<close>

lemma reshape_ok:
  "nd_ok a \<Longrightarrow> reshape a shp = Inr b \<Longrightarrow> shape b = shp \<and> nd_ok b \<and> data b = data a"
  by (auto simp: reshape_def nd_ok_def size_nd_def split: if_splits)

lemma init_invariant:
  fixes f :: "('v, 's, 'a) factor"
  assumes len: "length vars = length cards" and d: "distinct vars"
    and ok: "case vals of None \<Rightarrow> True | Some v \<Rightarrow> nd_ok (np_array v)"
    and i: "init vars cards vals names = Inr f"
  shows "invariant f"
proof (cases vals)
  case None
  with i len d show ?thesis by (auto simp: init_def invariant_def shape_ok_def)
next
  case (Some v)
  with i obtain b where b: "reshape (np_array v) cards = (Inr b :: 'v error + 'a ndarray)"
    and f: "f = \<lparr>variables = vars, cardinality = cards, values_buf = Some b, state_names = names\<rparr>"
    by (auto simp: init_def split: sum.splits)
  from ok Some have "nd_ok (np_array v)" by simp
  from reshape_ok [OF this b] show ?thesis
    using len d by (simp add: f invariant_def shape_ok_def ndim_def)
qed

lemma update_values_invariant:
  fixes f :: "('v, 's, 'a) factor"
  assumes inv: "invariant f" and ok: "nd_ok (np_array v)" and u: "update_values f v = Inr g"
  shows "invariant g"
proof -
  from u obtain b where b: "reshape (np_array v) (cardinality f) = (Inr b :: 'v error + 'a ndarray)"
    and g: "g = f\<lparr>values_buf := Some b\<rparr>"
    by (auto simp: update_values_def split: sum.splits)
  from reshape_ok [OF ok b] show ?thesis
    using inv by (simp add: g invariant_def shape_ok_def ndim_def)
qed

lemma ndarray_same_shape: "shape a = s \<Longrightarrow> \<lparr>shape = s, data = data a\<rparr> = a"
  by (cases a) simp

lemma copy_invariant:
  assumes "invariant f"
  shows "copy f = Inr f"
proof (cases "values_buf f")
  case None
  then show ?thesis by (cases f) (simp add: copy_def init_def)
next
  case (Some a)
  with assms have "shape a = cardinality f" by (simp add: invariant_def shape_ok_def)
  with Some show ?thesis
    by (cases f) (simp add: copy_def init_def reshape_def size_nd_def ndarray_same_shape)
qed

section \<open>The product of two factors\<close>

lemma init_attributes:
  "init vars cards vals names = Inr g \<Longrightarrow>
   variables g = vars \<and> cardinality g = cards \<and> state_names g = names"
  by (auto simp: init_def split: option.splits sum.splits)

lemma copy_attributes:
  "copy f = Inr g \<Longrightarrow>
   variables g = variables f \<and> cardinality g = cardinality f \<and> state_names g = state_names f"
  unfolding copy_def by (rule init_attributes)

lemma extra_vars_of_cong:
  "variables s' = variables s \<Longrightarrow> variables t' = variables t \<Longrightarrow>
   extra_vars_of set_order s' t' = extra_vars_of set_order s t"
  by (simp add: extra_vars_of_def)

lemma extra_vars_of_set:
  assumes "\<forall>xs. mset (set_order xs) = mset xs"
  shows "set (extra_vars_of set_order s t) = set (variables t) - set (variables s)"
    and "distinct (extra_vars_of set_order s t)"
proof -
  let ?xs = "remdups (filter (\<lambda>v. v \<notin> set (variables s)) (variables t))"
  have m: "mset (set_order ?xs) = mset ?xs" using assms by blast
  have "set (set_order ?xs) = set ?xs" using m by (rule mset_eq_setD)
  then show "set (extra_vars_of set_order s t) = set (variables t) - set (variables s)"
    by (auto simp: extra_vars_of_def)
  have "distinct ?xs" by simp
  then show "distinct (extra_vars_of set_order s t)"
    unfolding extra_vars_of_def using m by (metis mset_eq_imp_distinct_iff)
qed

lemma add_new_variables:
  "add_new_variables_from_other_factor set_order s t = Inr r \<Longrightarrow>
   variables r = variables s @ extra_vars_of set_order s t"
  by (auto simp: add_new_variables_from_other_factor_def Let_def
           split: if_splits option.splits sum.splits)

lemma product_factors_variables:
  "product_factors set_order l r = Inr p \<Longrightarrow>
   variables p = variables l @ extra_vars_of set_order l r"
  by (auto simp: product_factors_def Let_def dest!: add_new_variables
           split: option.splits sum.splits)

lemma product_variables:
  assumes "product set_order A (Factor B) = Inr (Fact r)"
  shows "variables r = variables A @ extra_vars_of set_order A B"
proof -
  from assms obtain l t where l: "copy A = Inr l" and t: "copy B = Inr t"
    and p: "product_factors set_order l t = Inr r"
    by (auto simp: product_def split: sum.splits)
  have "variables r = variables l @ extra_vars_of set_order l t"
    using p by (rule product_factors_variables)
  then show ?thesis
    using copy_attributes [OF l] copy_attributes [OF t]
    by (simp add: extra_vars_of_cong [of l A t B])
qed

lemmas eval_defs = product_def product_factors_def copy_def init_def reshape_def size_nd_def
  add_new_variables_from_other_factor_def extra_vars_of_def index_newaxis_def ndim_def
  get_cardinality_def list_index_def moveaxis_def insert_at_def transpose_nd_def
  multiply_def broadcast_shapes_def pad_shape_def bindex_def tabulate_def item_def Let_def

lemma set_order_single:
  assumes "\<forall>xs. mset (set_order xs) = mset xs"
  shows "set_order [x] = [x]"
proof -
  have "mset (set_order [x]) = {#x#}" using assms by simp
  then show ?thesis by (simp add: mset_single_iff_right)
qed

lemma product_XY_YZ:
  assumes "\<forall>xs. mset (set_order xs) = mset xs"
  shows "product set_order F_XY (Factor F_YZ) =
     Inr (Fact \<lparr>variables = [''X'', ''Y'', ''Z''], cardinality = [2, 2, 2],
            values_buf = Some \<lparr>shape = [2, 2, 2], data = [1, 3, 2, 6, 6, 12, 8, 16]\<rparr>,
            state_names = None\<rparr>)"
  by (simp add: F_XY_def F_YZ_def eval_defs eval_nat_numeral set_order_single [OF assms])

lemma product_G_XY_YZ:
  assumes "\<forall>xs. mset (set_order xs) = mset xs"
  shows "product set_order G_XY (Factor G_YZ) =
     Inr (Fact \<lparr>variables = [''X'', ''Y'', ''Z''], cardinality = [2, 3, 2],
            values_buf = Some \<lparr>shape = [2, 3, 3],
               data = [1, 3, 5, 2, 6, 10, 3, 9, 15, 8, 16, 24, 10, 20, 30, 12, 24, 36]\<rparr>,
            state_names = None\<rparr>)"
  by (simp add: G_XY_def G_YZ_def eval_defs eval_nat_numeral set_order_single [OF assms])

lemma product_AB_C_id:
  "product (\<lambda>xs. xs) F_AB (Factor F_C) =
   Inr (Fact \<lparr>variables = [''A'', ''B'', ''C''], cardinality = [2, 2, 2],
          values_buf = Some \<lparr>shape = [2, 2, 1], data = [10, 40, 30, 80]\<rparr>,
          state_names = state_names F_AB\<rparr>)"
  by (simp add: F_AB_def F_C_def eval_defs eval_nat_numeral)

lemma product_AB_C_rev: "product rev F_AB (Factor F_C) =
   Inr (Fact \<lparr>variables = [''A'', ''B'', ''C''], cardinality = [2, 2, 2],
          values_buf = Some \<lparr>shape = [2, 2, 2], data = [10, 20, 20, 40, 30, 60, 40, 80]\<rparr>,
          state_names = state_names F_AB\<rparr>)"
  by (simp add: F_AB_def F_C_def eval_defs eval_nat_numeral)

lemma extend_C_AB_id:
  "add_new_variables_from_other_factor (\<lambda>xs. xs) F_C F_AB =
   Inr \<lparr>variables = [''C'', ''A'', ''B''], cardinality = [2, 2, 2],
          values_buf = Some \<lparr>shape = [2, 1, 1], data = [10, 20]\<rparr>,
          state_names = None\<rparr>"
  by (simp add: F_AB_def F_C_def eval_defs eval_nat_numeral)

lemma extend_C_AB_rev:
  "add_new_variables_from_other_factor rev F_C F_AB =
   Inr \<lparr>variables = [''C'', ''B'', ''A''], cardinality = [2, 2, 2],
          values_buf = Some \<lparr>shape = [2, 1, 1], data = [10, 20]\<rparr>,
          state_names = None\<rparr>"
  by (simp add: F_AB_def F_C_def eval_defs eval_nat_numeral)

text \<open>
  For populated factors that satisfy the invariants, \<open>product\<close> either returns a factor
  or raises a ValueError of numpy (the broadcasting of the two buffers fails, see C1):
  the copies, the extensions, the axes and \<open>np.moveaxis\<close> do not fail.
\<close>

lemma map_of_tabulated:
  "x \<in> set xs \<Longrightarrow> map_of (map (\<lambda>k. (k, g k)) xs) x = Some (g x)"
  by (induction xs) auto

lemma add_new_variables_ok:
  fixes s t :: "('v, 's, 'a) factor"
  assumes perm: "\<forall>xs. mset (set_order xs) = mset xs"
    and vals: "values_buf s = Some a" and nd: "ndim a = length (variables s)"
    and len: "length (variables t) = length (cardinality t)"
  shows "\<exists>r b. add_new_variables_from_other_factor set_order s t = Inr r \<and>
           variables r = variables s @ extra_vars_of set_order s t \<and>
           length (cardinality r) = length (cardinality s) + length (extra_vars_of set_order s t) \<and>
           values_buf r = Some b \<and>
           ndim b = ndim a + length (extra_vars_of set_order s t)"
proof -
  define e where "e = extra_vars_of set_order s t"
  have sub: "set e \<subseteq> set (variables t)"
    using extra_vars_of_set(1) [OF perm, of s t] by (auto simp: e_def)
  show ?thesis
  proof (cases "length e = 0")
    case True
    then show ?thesis
      using vals by (simp add: add_new_variables_from_other_factor_def e_def [symmetric])
  next
    case False
    define g where "g = (\<lambda>v. cardinality t ! the (first_index (variables t) v))"
    have gc: "get_cardinality t e = (Inr (map (\<lambda>v. (v, g v)) e) :: 'v error + ('v \<times> nat) list)"
      unfolding get_cardinality_def
    proof (rule mapE_ok)
      fix v assume "v \<in> set e"
      with sub obtain i where i: "first_index (variables t) v = Some i"
        using first_index_mem [of v "variables t"] by auto
      with first_index_Some [OF i] len
      show "(case first_index (variables t) v of
               None \<Rightarrow> Inl ValueError
             | Some i \<Rightarrow> if i < length (cardinality t) then Inr (v, cardinality t ! i)
                         else Inl IndexError) = Inr (v, g v)"
        by (simp add: g_def)
    qed
    have cards: "mapE (\<lambda>var. case map_of (map (\<lambda>v. (v, g v)) e) var of
                              None \<Rightarrow> Inl KeyError | Some c \<Rightarrow> Inr c) e
                 = (Inr (map g e) :: 'v error + nat list)"
      by (rule mapE_ok) (simp add: map_of_tabulated)
    show ?thesis
      using False vals nd
      by (simp add: add_new_variables_from_other_factor_def e_def [symmetric] Let_def
            index_newaxis_def gc cards ndim_def)
  qed
qed

lemma first_index_the:
  "x \<in> set xs \<Longrightarrow> the (first_index xs x) < length xs \<and> xs ! the (first_index xs x) = x"
  using first_index_mem [of x xs] first_index_Some [of xs x] by auto

lemma moveaxis_error: "moveaxis a src dst = Inl e \<Longrightarrow> e = ValueError"
  by (auto simp: moveaxis_def Let_def split: if_splits)

lemma multiply_error: "multiply a b = Inl e \<Longrightarrow> e = ValueError"
  by (auto simp: multiply_def split: option.splits)

lemma product_fails_only_in_numpy:
  fixes A B :: "('v, 's, 'a::times) factor"
  assumes perm: "\<forall>xs. mset (set_order xs) = mset xs"
    and iA: "invariant A" and iB: "invariant B" and pA: "populated A" and pB: "populated B"
  shows "product set_order A (Factor B) = Inl ValueError \<or>
         (\<exists>r. product set_order A (Factor B) = Inr (Fact r))"
proof -
  from pA pB obtain a b where a: "values_buf A = Some a" and b: "values_buf B = Some b"
    by (auto simp: populated_def)
  have nA: "ndim a = length (variables A)" and nB: "ndim b = length (variables B)"
    and lA: "length (variables A) = length (cardinality A)"
    and lB: "length (variables B) = length (cardinality B)"
    and dA: "distinct (variables A)" and dB: "distinct (variables B)"
    using iA iB a b by (simp_all add: invariant_def shape_ok_def)
  from add_new_variables_ok [OF perm a nA lB] obtain left lv
    where left: "add_new_variables_from_other_factor set_order A B = Inr left"
      "variables left = variables A @ extra_vars_of set_order A B"
      "length (cardinality left) = length (cardinality A) + length (extra_vars_of set_order A B)"
      "values_buf left = Some lv" by blast
  have lL: "length (variables left) = length (cardinality left)"
    using left(2,3) lA by simp
  from add_new_variables_ok [OF perm b nB lL] obtain right rv
    where right: "add_new_variables_from_other_factor set_order B left = Inr right"
      "variables right = variables B @ extra_vars_of set_order B left"
      "values_buf right = Some rv"
      "ndim rv = ndim b + length (extra_vars_of set_order B left)" by blast
  note eA = extra_vars_of_set [OF perm, of A B]
  note eB = extra_vars_of_set [OF perm, of B left]
  have sl: "set (variables left) = set (variables A) \<union> set (variables B)"
    using left(2) eA(1) by auto
  have sr: "set (variables right) = set (variables A) \<union> set (variables B)"
    using right(2) eB(1) sl by auto
  have dl: "distinct (variables left)" using left(2) dA eA by auto
  have dr: "distinct (variables right)" using right(2) dB eB by auto
  have same_len: "length (variables left) = length (variables right)"
    using dl dr sl sr by (metis distinct_card)
  have nr: "ndim rv = length (variables right)" using right(2,4) nB by simp
  define dest where "dest = map (\<lambda>v. the (first_index (variables right) v)) (variables left)"
  have destE: "mapE (list_index (variables right)) (variables left)
               = (Inr dest :: 'v error + nat list)"
    unfolding dest_def
  proof (rule mapE_ok)
    fix v assume "v \<in> set (variables left)"
    then have "v \<in> set (variables right)" using sl sr by simp
    then obtain i where "first_index (variables right) v = Some i"
      using first_index_mem by fastforce
    then show "list_index (variables right) v = Inr (the (first_index (variables right) v))"
      by (simp add: list_index_def)
  qed
  have in_r: "v \<in> set (variables right)" if "v \<in> set (variables left)" for v
    using that sl sr by simp
  have dest_lt: "list_all (\<lambda>ax. ax < ndim rv) dest"
    using first_index_the [OF in_r] by (simp add: dest_def list_all_iff nr)
  have "inj_on (\<lambda>v. the (first_index (variables right) v)) (set (variables left))"
  proof (rule inj_onI)
    fix v w assume v: "v \<in> set (variables left)" and w: "w \<in> set (variables left)"
      and e: "the (first_index (variables right) v) = the (first_index (variables right) w)"
    have "v = variables right ! the (first_index (variables right) v)"
      using first_index_the [OF in_r [OF v]] by simp
    also have "\<dots> = w" using first_index_the [OF in_r [OF w]] e by simp
    finally show "v = w" .
  qed
  then have dest_d: "distinct dest" using dl by (simp add: dest_def distinct_map)
  have dest_len: "length dest = ndim rv" by (simp add: dest_def nr same_len)
  have "\<exists>moved. moveaxis rv [0..<ndim rv] dest = (Inr moved :: 'v error + 'a ndarray)"
    using dest_lt dest_d dest_len by (auto simp: moveaxis_def Let_def list_all_iff)
  then obtain moved
    where moved: "moveaxis rv [0..<ndim rv] dest = (Inr moved :: 'v error + 'a ndarray)" ..
  have cA: "copy A = Inr A" and cB: "copy B = Inr B"
    using iA iB by (simp_all add: copy_invariant)
  show ?thesis
  proof (cases "multiply lv moved :: 'v error + 'a ndarray")
    case (Inl e)
    then have "e = ValueError" by (rule multiply_error)
    with Inl show ?thesis
      by (simp add: product_def product_factors_def cA cB left(1,4) right(1,3) destE moved Let_def)
  next
    case (Inr p)
    then show ?thesis
      by (simp add: product_def product_factors_def cA cB left(1,4) right(1,3) destE moved Let_def)
  qed
qed

text \<open>
  Whenever \<open>product\<close> returns a factor for two operands whose variable lists have no
  repetition, the variables of the result are exactly the variables of the two operands,
  none of them twice, whatever the order in which Python iterates over the sets.
\<close>

lemma product_scope_when_returned:
  assumes "\<forall>xs. mset (set_order xs) = mset xs"
    and "distinct (variables A)" and "distinct (variables B)"
    and "product set_order A (Factor B) = Inr (Fact r)"
  shows "set (variables r) = set (variables A) \<union> set (variables B) \<and> distinct (variables r)"
  using product_variables [OF assms(4)] extra_vars_of_set [OF assms(1), of A B] assms(2,3)
  by auto

lemma product_G_XY_K_YZ:
  assumes "\<forall>xs. mset (set_order xs) = mset xs"
  shows "product set_order G_XY (Factor K_YZ) = Inl ValueError"
  by (simp add: G_XY_def K_YZ_def eval_defs eval_nat_numeral set_order_single [OF assms])

text \<open>
  C8. The claim promises a result with the union scope for every pair of populated
  factors with duplicate-free variable lists; the source does not give one. For the
  factor over X, Y (cardinalities 2, 3) and the factor over Y, Z (cardinalities 3, 4),
  both populated and satisfying the invariants, \<open>product\<close> raises numpy's ValueError,
  under every order of set iteration: the left buffer has shape 2, 3, 1, the right one,
  moved by \<open>np.moveaxis\<close> with source and destination the wrong way round (C1), has
  shape 4, 1, 3, and the two cannot be broadcast together. There is no product, so no
  scope that is the union X, Y, Z. (When \<open>product\<close> does return, the scope is the union:
  \<open>product_scope_when_returned\<close>.)
\<close>

theorem product_raises_on_well_formed_operands:
  assumes "\<forall>xs. mset (set_order xs) = mset xs"
  shows "invariant G_XY \<and> invariant K_YZ \<and> populated G_XY \<and> populated K_YZ \<and>
         distinct (variables G_XY) \<and> distinct (variables K_YZ) \<and>
         product set_order G_XY (Factor K_YZ) = Inl ValueError"
  using product_G_XY_K_YZ [OF assms]
  by (simp add: G_XY_def K_YZ_def invariant_def shape_ok_def nd_ok_def ndim_def populated_def)

theorem product_raises_on_well_formed_operands_witness:
  "(\<forall>xs :: string list. mset (rev xs) = mset xs) \<and>
   invariant G_XY \<and> invariant K_YZ \<and>
   product rev G_XY (Factor K_YZ) = Inl ValueError"
proof -
  have p: "\<forall>xs :: string list. mset (rev xs) = mset xs" by simp
  from product_raises_on_well_formed_operands [OF p] show ?thesis by simp
qed

text \<open>
  C9. The order in which \<open>add_new_variables_from_other_factor\<close> appends the missing
  variables is the order in which Python iterates over a set, which the language does
  not fix (for strings it changes with the hash seed of the process). Extending the
  factor over C by the variables of the factor over A and B gives the variable list
  C, A, B under one admissible order of iteration and C, B, A under another.
\<close>

theorem extension_order_follows_set_iteration:
  "(\<forall>xs :: string list. mset ((\<lambda>xs. xs) xs) = mset xs) \<and>
   (\<forall>xs :: string list. mset (rev xs) = mset xs) \<and>
   add_new_variables_from_other_factor (\<lambda>xs. xs) F_C F_AB =
     Inr \<lparr>variables = [''C'', ''A'', ''B''], cardinality = [2, 2, 2],
          values_buf = Some \<lparr>shape = [2, 1, 1], data = [10, 20]\<rparr>, state_names = None\<rparr> \<and>
   add_new_variables_from_other_factor rev F_C F_AB =
     Inr \<lparr>variables = [''C'', ''B'', ''A''], cardinality = [2, 2, 2],
          values_buf = Some \<lparr>shape = [2, 1, 1], data = [10, 20]\<rparr>, state_names = None\<rparr>"
  using extend_C_AB_id extend_C_AB_rev by simp

text \<open>
  C1. The product value law fails on the source. \<open>product\<close> hands \<open>np.moveaxis\<close> the
  positions of the left variables in the right factor as destinations, which applies
  the inverse of the permutation that the reordering of \<open>right.variables\<close> applies. For
  the factors over X, Y and over Y, Z (each set difference has one element, so the order
  of iteration plays no role) the result at X = 0, Y = 0, Z = 1 is 3, where the law
  gives the value 1 of the first factor at X = 0, Y = 0 times the value 2 of the second
  at Y = 0, Z = 1.
\<close>

theorem product_value_law_violated:
  assumes "\<forall>xs. mset (set_order xs) = mset xs"
  shows "\<exists>r a x y. product set_order F_XY (Factor F_YZ) = Inr (Fact r) \<and>
           variables r = [''X'', ''Y'', ''Z''] \<and> values_buf r = Some a \<and>
           values_buf F_XY = Some x \<and> values_buf F_YZ = Some y \<and>
           item a [0, 0, 1] = 3 \<and> item x [0, 0] * item y [0, 1] = 2"
  using product_XY_YZ [OF assms]
  by (simp add: F_XY_def F_YZ_def item_def)

theorem product_value_law_violated_witness:
  "(\<forall>xs :: string list. mset (rev xs) = mset xs) \<and>
   (\<exists>r a. product rev F_XY (Factor F_YZ) = Inr (Fact r) \<and> values_buf r = Some a \<and>
          item a [0, 0, 1] = 3)"
proof -
  have p: "\<forall>xs :: string list. mset (rev xs) = mset xs" by simp
  from product_value_law_violated [OF p] show ?thesis by auto
qed

text \<open>
  The scenario of the specification, the product of the factor over A and B with the
  factor over C, depends on the order in which the set of A and B is iterated: one order
  gives the buffer of the scenario, the other a buffer of shape 2, 2, 1.
\<close>

lemma scenario_3_depends_on_set_iteration:
  "(\<exists>r a. product rev F_AB (Factor F_C) = Inr (Fact r) \<and> values_buf r = Some a \<and>
          shape a = [2, 2, 2] \<and> data a = [10, 20, 20, 40, 30, 60, 40, 80]) \<and>
   (\<exists>r a. product (\<lambda>xs. xs) F_AB (Factor F_C) = Inr (Fact r) \<and> values_buf r = Some a \<and>
          shape a = [2, 2, 1] \<and> data a = [10, 40, 30, 80])"
  by (simp add: product_AB_C_rev product_AB_C_id)

text \<open>
  C2. The shape invariant fails for a factor derived by \<open>product\<close>, by the same use of
  \<open>np.moveaxis\<close>: the product of the factors over X, Y (cardinalities 2, 3) and over
  Y, Z (cardinalities 3, 2), which both satisfy the invariants, has the cardinalities
  2, 3, 2 and a buffer of shape 2, 3, 3. Construction, replacement of values, copy and
  marginalization keep the invariants (\<open>init_invariant\<close>, \<open>update_values_invariant\<close>,
  \<open>copy_invariant\<close>, \<open>marginalize_invariant\<close>).
\<close>

theorem product_breaks_shape_invariant:
  assumes "\<forall>xs. mset (set_order xs) = mset xs"
  shows "invariant G_XY \<and> invariant G_YZ \<and>
         (\<exists>r a. product set_order G_XY (Factor G_YZ) = Inr (Fact r) \<and>
                values_buf r = Some a \<and> cardinality r = [2, 3, 2] \<and> shape a = [2, 3, 3] \<and>
                \<not> shape_ok r \<and> \<not> invariant r)"
  using product_G_XY_YZ [OF assms]
  by (simp add: G_XY_def G_YZ_def invariant_def shape_ok_def nd_ok_def ndim_def)

theorem product_breaks_shape_invariant_witness:
  "(\<forall>xs :: string list. mset (rev xs) = mset xs) \<and>
   (\<exists>r a. product rev G_XY (Factor G_YZ) = Inr (Fact r) \<and>
          values_buf r = Some a \<and> cardinality r = [2, 3, 2] \<and> shape a = [2, 3, 3])"
proof -
  have p: "\<forall>xs :: string list. mset (rev xs) = mset xs" by simp
  from product_breaks_shape_invariant [OF p] show ?thesis by auto
qed

section \<open>Facts about the store\<close>

lemma same_on_refl [simp]: "same_on S h h"
  by (simp add: same_on_def)

lemma same_on_subset: "same_on S h h' \<Longrightarrow> T \<subseteq> S \<Longrightarrow> same_on T h h'"
  by (auto simp: same_on_def)

lemma same_on_trans: "same_on S h h' \<Longrightarrow> same_on S h' h'' \<Longrightarrow> same_on S h h''"
  by (simp add: same_on_def)

lemma extends_refl [simp]: "extends h h"
  by (simp add: extends_def)

lemma extends_trans: "extends h h' \<Longrightarrow> extends h' h'' \<Longrightarrow> extends h h''"
  unfolding extends_def
  by (meson lessThan_subset_iff order_trans same_on_subset same_on_trans)

lemma extends_same_on: "extends h h' \<Longrightarrow> S \<subseteq> {..<next_addr h} \<Longrightarrow> same_on S h h'"
  by (auto simp: extends_def intro: same_on_subset)

lemma extends_next: "extends h h' \<Longrightarrow> next_addr h \<le> next_addr h'"
  by (simp add: extends_def)

lemma alloc_var_list_props:
  "alloc_var_list h xs = (h', a) \<Longrightarrow>
   a = next_addr h \<and> next_addr h' = Suc (next_addr h) \<and> extends h h' \<and> var_lists h' a = xs"
  by (auto simp: alloc_var_list_def extends_def same_on_def)

lemma alloc_card_list_props:
  "alloc_card_list h xs = (h', a) \<Longrightarrow>
   a = next_addr h \<and> next_addr h' = Suc (next_addr h) \<and> extends h h' \<and> card_lists h' a = xs"
  by (auto simp: alloc_card_list_def extends_def same_on_def)

lemma alloc_label_list_props:
  "alloc_label_list h xs = (h', a) \<Longrightarrow>
   a = next_addr h \<and> next_addr h' = Suc (next_addr h) \<and> extends h h' \<and> label_lists h' a = xs"
  by (auto simp: alloc_label_list_def extends_def same_on_def)

lemma alloc_array_props:
  "alloc_array h x = (h', a) \<Longrightarrow>
   a = next_addr h \<and> next_addr h' = Suc (next_addr h) \<and> extends h h' \<and> arrays h' a = x"
  by (auto simp: alloc_array_def extends_def same_on_def)

lemma alloc_dict_props:
  "alloc_dict h x = (h', a) \<Longrightarrow>
   a = next_addr h \<and> next_addr h' = Suc (next_addr h) \<and> extends h h' \<and> dicts h' a = x"
  by (auto simp: alloc_dict_def extends_def same_on_def)

lemma alloc_factor_props:
  "alloc_factor h x = (h', a) \<Longrightarrow>
   a = next_addr h \<and> next_addr h' = Suc (next_addr h) \<and> extends h h' \<and> factors h' a = x"
  by (auto simp: alloc_factor_def extends_def same_on_def)

lemma names_at_same:
  assumes "dicts h' d = dicts h d"
    and "\<And>l. l \<in> snd ` set (dicts h d) \<Longrightarrow> label_lists h' l = label_lists h l"
  shows "names_at h' d = names_at h d"
proof
  fix v
  show "names_at h' d v = names_at h d v"
  proof (cases "map_of (dicts h d) v")
    case None
    then show ?thesis by (simp add: names_at_def assms(1))
  next
    case (Some l)
    then have "(v, l) \<in> set (dicts h d)" by (rule map_of_SomeD)
    then have "l \<in> snd ` set (dicts h d)" by force
    then show ?thesis using Some by (simp add: names_at_def assms)
  qed
qed

lemma frame:
  assumes "same_on (reach h r) h h'"
  shows "factor_at h' r = factor_at h r" and "reach h' r = reach h r"
proof -
  have fo: "factors h' r = factors h r"
    using assms by (simp add: same_on_def reach_def)
  have v: "var_lists h' (variables_ref (factors h r)) = var_lists h (variables_ref (factors h r))"
    and c: "card_lists h' (cardinality_ref (factors h r)) = card_lists h (cardinality_ref (factors h r))"
    using assms by (simp_all add: same_on_def reach_def)
  have a: "map_option (arrays h') (values_ref (factors h r)) = map_option (arrays h) (values_ref (factors h r))"
    using assms by (cases "values_ref (factors h r)") (simp_all add: same_on_def reach_def)
  have d: "dicts h' d = dicts h d" if "state_names_ref (factors h r) = Some d" for d
    using assms that by (simp add: same_on_def reach_def)
  have n: "map_option (names_at h') (state_names_ref (factors h r))
         = map_option (names_at h) (state_names_ref (factors h r))"
  proof (cases "state_names_ref (factors h r)")
    case None
    then show ?thesis by simp
  next
    case (Some d)
    have "names_at h' d = names_at h d"
    proof (rule names_at_same [OF d [OF Some]])
      fix l assume "l \<in> snd ` set (dicts h d)"
      then have "l \<in> reach h r" using Some by (simp add: reach_def)
      with assms show "label_lists h' l = label_lists h l" by (simp add: same_on_def)
    qed
    with Some show ?thesis by simp
  qed
  show "factor_at h' r = factor_at h r"
    by (simp add: factor_at_def fo v c a n)
  show "reach h' r = reach h r"
    using d by (auto simp: reach_def fo split: option.splits)
qed

lemma extends_factor:
  assumes "extends h h'" "allocated h r"
  shows "factor_at h' r = factor_at h r" and "reach h' r = reach h r" and "allocated h' r"
proof -
  have s: "same_on (reach h r) h h'"
    using assms by (auto simp: allocated_def intro: extends_same_on)
  show "factor_at h' r = factor_at h r" and r: "reach h' r = reach h r"
    using frame [OF s] by simp_all
  show "allocated h' r"
    using assms extends_next [OF assms(1)] by (auto simp: allocated_def r)
qed

lemma extends_label:
  "extends h h' \<Longrightarrow> l < next_addr h \<Longrightarrow> label_lists h' l = label_lists h l"
  by (simp add: extends_def same_on_def)

lemma deepcopy_items_props:
  assumes "deepcopy_items h memo items = (h', items')"
    and "n0 \<le> next_addr h"
    and "\<forall>(l, l') \<in> set memo. l < n0 \<and> n0 \<le> l' \<and> l' < next_addr h \<and>
           label_lists h l' = label_lists h l"
    and "\<forall>l \<in> snd ` set items. l < n0"
  shows "extends h h' \<and>
         (\<forall>l' \<in> snd ` set items'. n0 \<le> l' \<and> l' < next_addr h') \<and>
         (\<forall>v. map_option (label_lists h') (map_of items' v)
              = map_option (label_lists h) (map_of items v))"
  using assms
proof (induction items arbitrary: h memo h' items')
  case Nil
  then show ?case by simp
next
  case (Cons kl rest)
  obtain k l where kl: "kl = (k, l)" by (cases kl)
  have l: "l < n0" and rest: "\<forall>l \<in> snd ` set rest. l < n0"
    using Cons.prems(4) by (auto simp: kl)
  show ?case
  proof (cases "map_of memo l")
    case (Some l')
    obtain h2 rest' where r: "deepcopy_items h memo rest = (h2, rest')"
      by (cases "deepcopy_items h memo rest")
    from Cons.prems(1) have eq: "h' = h2" "items' = (k, l') # rest'"
      by (simp_all add: kl Some r)
    note ih = Cons.IH [OF r Cons.prems(2,3) rest]
    from Some have "(l, l') \<in> set memo" by (rule map_of_SomeD)
    with Cons.prems(3) have m: "n0 \<le> l'" "l' < next_addr h" "label_lists h l' = label_lists h l"
      by auto
    have "label_lists h2 l' = label_lists h l"
      using extends_label [of h h2 l'] ih m by simp
    moreover have "l' < next_addr h2"
      using m(2) extends_next [of h h2] ih by simp
    ultimately show ?thesis using ih m(1) by (simp add: eq kl)
  next
    case None
    obtain h1 l' where a: "alloc_label_list h (label_lists h l) = (h1, l')"
      by (cases "alloc_label_list h (label_lists h l)")
    obtain h2 rest' where r: "deepcopy_items h1 ((l, l') # memo) rest = (h2, rest')"
      by (cases "deepcopy_items h1 ((l, l') # memo) rest")
    from Cons.prems(1) have eq: "h' = h2" "items' = (k, l') # rest'"
      by (simp_all add: kl None a r)
    from alloc_label_list_props [OF a]
    have ap: "l' = next_addr h" "next_addr h1 = Suc (next_addr h)" "extends h h1"
      "label_lists h1 l' = label_lists h l" by auto
    have n1: "n0 \<le> next_addr h1" using ap Cons.prems(2) by simp
    have memo1: "\<forall>(m, m') \<in> set ((l, l') # memo). m < n0 \<and> n0 \<le> m' \<and> m' < next_addr h1 \<and>
           label_lists h1 m' = label_lists h1 m"
    proof -
      have new: "label_lists h1 l' = label_lists h1 l"
        using ap(3,4) l Cons.prems(2) extends_label [of h h1 l] by simp
      have old: "m < n0 \<and> n0 \<le> m' \<and> m' < next_addr h1 \<and> label_lists h1 m' = label_lists h1 m"
        if "(m, m') \<in> set memo" for m m'
      proof -
        from that Cons.prems(3) have p: "m < n0" "n0 \<le> m'" "m' < next_addr h"
          "label_lists h m' = label_lists h m" by auto
        have "label_lists h1 m' = label_lists h m'" using extends_label [of h h1 m'] ap p(3) by simp
        moreover have "label_lists h1 m = label_lists h m"
          using extends_label [of h h1 m] ap p(1) Cons.prems(2) by simp
        ultimately show ?thesis using p ap by simp
      qed
      show ?thesis using new old l ap Cons.prems(2) by auto
    qed
    note ih = Cons.IH [OF r n1 memo1 rest]
    have e: "extends h h2" using ap ih by (blast intro: extends_trans)
    have "label_lists h2 l' = label_lists h l"
      using extends_label [of h1 h2 l'] ih ap by simp
    moreover have "n0 \<le> l'" "l' < next_addr h2"
      using ap Cons.prems(2) extends_next [of h1 h2] ih by simp_all
    moreover have "\<forall>v. map_option (label_lists h2) (map_of rest' v)
              = map_option (label_lists h) (map_of rest v)"
    proof
      fix v
      show "map_option (label_lists h2) (map_of rest' v) = map_option (label_lists h) (map_of rest v)"
      proof (cases "map_of rest v")
        case None
        with ih show ?thesis by (metis option.map_disc_iff)
      next
        case (Some m)
        then have "m \<in> snd ` set rest" by (force dest: map_of_SomeD)
        with rest have "m < n0" by auto
        then have "label_lists h1 m = label_lists h m"
          using extends_label [of h h1 m] ap Cons.prems(2) by simp
        with ih Some show ?thesis by (metis option.simps(9))
      qed
    qed
    ultimately show ?thesis using e ih by (simp add: eq kl)
  qed
qed

lemma deepcopy_state_names_props:
  assumes dc: "deepcopy_state_names h names = (h', names')"
    and old: "\<forall>d \<in> set_option names. \<forall>l \<in> snd ` set (dicts h d). l < next_addr h"
  shows "extends h h' \<and>
         map_option (names_at h') names' = map_option (names_at h) names \<and>
         (\<forall>d' \<in> set_option names'. next_addr h \<le> d' \<and> d' < next_addr h' \<and>
             (\<forall>l \<in> snd ` set (dicts h' d'). next_addr h \<le> l \<and> l < next_addr h'))"
proof (cases names)
  case None
  with dc show ?thesis by (simp add: deepcopy_state_names_def)
next
  case (Some d)
  obtain h1 items where i: "deepcopy_items h [] (dicts h d) = (h1, items)"
    by (cases "deepcopy_items h [] (dicts h d)")
  obtain h2 d' where a: "alloc_dict h1 items = (h2, d')"
    by (cases "alloc_dict h1 items")
  from dc have eq: "h' = h2" "names' = Some d'"
    by (simp_all add: deepcopy_state_names_def Some i a)
  have "\<forall>l \<in> snd ` set (dicts h d). l < next_addr h" using old Some by simp
  from deepcopy_items_props [OF i order_refl _ this]
  have ip: "extends h h1" "\<forall>l' \<in> snd ` set items. next_addr h \<le> l' \<and> l' < next_addr h1"
    "\<forall>v. map_option (label_lists h1) (map_of items v)
         = map_option (label_lists h) (map_of (dicts h d) v)"
    by simp_all
  from alloc_dict_props [OF a]
  have ap: "d' = next_addr h1" "next_addr h2 = Suc (next_addr h1)" "extends h1 h2"
    "dicts h2 d' = items" by auto
  have e: "extends h h2" using ip(1) ap(3) by (rule extends_trans)
  have "names_at h2 d' = names_at h d"
  proof
    fix v
    have "map_option (label_lists h2) (map_of items v) = map_option (label_lists h1) (map_of items v)"
    proof (cases "map_of items v")
      case None
      then show ?thesis by simp
    next
      case (Some l)
      then have "l \<in> snd ` set items" by (force dest: map_of_SomeD)
      with ip(2) have "l < next_addr h1" by auto
      then show ?thesis using Some extends_label [OF ap(3)] by simp
    qed
    then show "names_at h2 d' v = names_at h d v"
      using ip(3) by (simp add: names_at_def ap(4))
  qed
  moreover have "next_addr h \<le> d'" using ap(1) extends_next [OF ip(1)] by simp
  moreover have "\<forall>l \<in> snd ` set (dicts h2 d'). next_addr h \<le> l \<and> l < next_addr h2"
    using ip(2) ap(2,4) by auto
  ultimately show ?thesis using e ap(1,2) by (simp add: eq Some)
qed

lemma init_h_extends: "init_h h vars cards vals names = (h', res) \<Longrightarrow> extends h h'"
  by (auto simp: init_h_def alloc_var_list_def alloc_card_list_def alloc_array_def
        alloc_factor_def Let_def extends_def same_on_def split: option.splits sum.splits)

lemma init_h_error:
  "init_h h vars cards vals names = (h', Inl e) \<Longrightarrow> init vars cards vals X = Inl e"
  by (auto simp: init_h_def init_def alloc_var_list_def alloc_card_list_def alloc_array_def
        alloc_factor_def Let_def split: option.splits sum.splits)

lemma init_h_result:
  assumes "init_h h vars cards vals names = (h', Inr c)"
  shows "next_addr h \<le> c \<and> c < next_addr h' \<and>
         next_addr h \<le> variables_ref (factors h' c) \<and> variables_ref (factors h' c) < next_addr h' \<and>
         next_addr h \<le> cardinality_ref (factors h' c) \<and> cardinality_ref (factors h' c) < next_addr h' \<and>
         (\<forall>a \<in> set_option (values_ref (factors h' c)). next_addr h \<le> a \<and> a < next_addr h') \<and>
         state_names_ref (factors h' c) = names \<and>
         init vars cards vals X =
           Inr \<lparr>variables = var_lists h' (variables_ref (factors h' c)),
                cardinality = card_lists h' (cardinality_ref (factors h' c)),
                values_buf = map_option (arrays h') (values_ref (factors h' c)),
                state_names = X\<rparr>"
  using assms
  by (auto simp: init_h_def init_def alloc_var_list_def alloc_card_list_def alloc_array_def
        alloc_factor_def Let_def split: option.splits sum.splits)

lemma copy_h_props:
  assumes al: "allocated h f" and cp: "copy_h h f = (h', Inr c)"
  shows "extends h h' \<and> reach h' c \<subseteq> {next_addr h..<next_addr h'} \<and>
         copy (factor_at h f) = Inr (factor_at h' c)"
proof -
  define fo where "fo = factors h f"
  obtain h1 names where dc: "deepcopy_state_names h (state_names_ref fo) = (h1, names)"
    by (cases "deepcopy_state_names h (state_names_ref fo)")
  have i: "init_h h1 (var_lists h1 (variables_ref fo)) (card_lists h1 (cardinality_ref fo))
             (map_option (\<lambda>r. NdArray (arrays h1 r)) (values_ref fo)) names = (h', Inr c)"
    using cp by (simp add: copy_h_def Let_def fo_def [symmetric] dc)
  have old: "\<forall>d \<in> set_option (state_names_ref fo). \<forall>l \<in> snd ` set (dicts h d). l < next_addr h"
    using al by (fastforce simp: allocated_def reach_def fo_def)
  from deepcopy_state_names_props [OF dc old]
  have dp: "extends h h1"
    "map_option (names_at h1) names = map_option (names_at h) (state_names_ref fo)"
    "\<forall>d' \<in> set_option names. next_addr h \<le> d' \<and> d' < next_addr h1 \<and>
             (\<forall>l \<in> snd ` set (dicts h1 d'). next_addr h \<le> l \<and> l < next_addr h1)"
    by simp_all
  have e1: "extends h1 h'" using i by (rule init_h_extends)
  have e: "extends h h'" using dp(1) e1 by (rule extends_trans)
  note ir = init_h_result [OF i, of "map_option (names_at h1) names"]
  have n1: "next_addr h \<le> next_addr h1" using dp(1) by (rule extends_next)
  have n2: "next_addr h1 \<le> next_addr h'" using e1 by (rule extends_next)
  have names': "state_names_ref (factors h' c) = names" using ir by simp
  have dict_same: "dicts h' d' = dicts h1 d'" if "d' \<in> set_option names" for d'
    using that dp(3) e1 by (auto simp: extends_def same_on_def)
  have r: "reach h' c \<subseteq> {next_addr h..<next_addr h'}"
  proof -
    have "c \<in> {next_addr h..<next_addr h'}" using ir n1 by simp
    moreover have "variables_ref (factors h' c) \<in> {next_addr h..<next_addr h'}"
      using ir n1 by simp
    moreover have "cardinality_ref (factors h' c) \<in> {next_addr h..<next_addr h'}"
      using ir n1 by simp
    moreover have "set_option (values_ref (factors h' c)) \<subseteq> {next_addr h..<next_addr h'}"
      using ir n1 by auto
    moreover have "(case names of None \<Rightarrow> {} | Some d \<Rightarrow> insert d (snd ` set (dicts h' d)))
                   \<subseteq> {next_addr h..<next_addr h'}"
    proof (cases names)
      case None
      then show ?thesis by simp
    next
      case (Some d)
      with dp(3) dict_same [of d] n2 show ?thesis by (auto simp: Some)
    qed
    ultimately show ?thesis by (simp add: reach_def names')
  qed
  have s: "same_on (reach h f) h h1"
    using dp(1) al by (auto simp: allocated_def intro: extends_same_on)
  have mem: "variables_ref fo \<in> reach h f" "cardinality_ref fo \<in> reach h f"
    by (simp_all add: reach_def fo_def)
  have src1: "var_lists h1 (variables_ref fo) = variables (factor_at h f)"
    using s mem(1) by (simp add: same_on_def factor_at_def fo_def)
  have src2: "card_lists h1 (cardinality_ref fo) = cardinality (factor_at h f)"
    using s mem(2) by (simp add: same_on_def factor_at_def fo_def)
  have src3: "map_option (\<lambda>r. NdArray (arrays h1 r)) (values_ref fo)
       = map_option NdArray (values_buf (factor_at h f))"
  proof (cases "values_ref fo")
    case None
    then show ?thesis by (simp add: factor_at_def fo_def)
  next
    case (Some a)
    then have "a \<in> reach h f" by (simp add: reach_def fo_def)
    with s have "arrays h1 a = arrays h a" by (simp add: same_on_def)
    with Some show ?thesis by (simp add: factor_at_def fo_def)
  qed
  have src4: "map_option (names_at h1) names = state_names (factor_at h f)"
    using dp(2) by (simp add: factor_at_def fo_def)
  have names_same: "map_option (names_at h') names = map_option (names_at h1) names"
  proof (cases names)
    case None
    then show ?thesis by simp
  next
    case (Some d)
    have "names_at h' d = names_at h1 d"
    proof (rule names_at_same [OF dict_same])
      show "d \<in> set_option names" by (simp add: Some)
    next
      fix l assume "l \<in> snd ` set (dicts h1 d)"
      with dp(3) Some have "l < next_addr h1" by auto
      then show "label_lists h' l = label_lists h1 l" by (rule extends_label [OF e1])
    qed
    then show ?thesis by (simp add: Some)
  qed
  have "copy (factor_at h f) = Inr (factor_at h' c)"
  proof -
    have "copy (factor_at h f) =
            init (var_lists h1 (variables_ref fo)) (card_lists h1 (cardinality_ref fo))
              (map_option (\<lambda>r. NdArray (arrays h1 r)) (values_ref fo))
              (map_option (names_at h1) names)"
      unfolding copy_def src1 src2 src3 src4 ..
    also have "\<dots> = Inr \<lparr>variables = var_lists h' (variables_ref (factors h' c)),
                cardinality = card_lists h' (cardinality_ref (factors h' c)),
                values_buf = map_option (arrays h') (values_ref (factors h' c)),
                state_names = map_option (names_at h1) names\<rparr>"
      using ir by blast
    also have "\<dots> = Inr (factor_at h' c)"
      by (simp add: factor_at_def names' names_same)
    finally show ?thesis .
  qed
  with e r show ?thesis by simp
qed

lemma update_values_h_frame:
  assumes "update_values_h h x new_values = (h', res)"
  shows "next_addr h \<le> next_addr h' \<and> same_on ({..<next_addr h} - {x}) h h'"
  using assms
  by (auto simp: update_values_h_def assign_values_def alloc_array_def Let_def same_on_def
           split: sum.splits)

lemma update_values_h_other:
  assumes "allocated h r" "x \<notin> reach h r"
  shows "factor_at (fst (update_values_h h x new_values)) r = factor_at h r"
proof -
  obtain h' res where u: "update_values_h h x new_values = (h', res)"
    by (cases "update_values_h h x new_values")
  have "same_on (reach h r) h h'"
    using update_values_h_frame [OF u] assms
    by (auto simp: allocated_def intro: same_on_subset)
  then show ?thesis using frame(1) [of h r h'] by (simp add: u)
qed

lemma copy_h_independent:
  assumes al: "allocated h f" and cp: "copy_h h f = (h', Inr c)"
  shows "reach h' c \<inter> reach h' f = {} \<and>
         factor_at h' f = factor_at h f \<and>
         copy (factor_at h f) = Inr (factor_at h' c) \<and>
         (\<forall>k. same_on (- reach h' c) h' k \<longrightarrow> factor_at k f = factor_at h' f) \<and>
         (\<forall>k. same_on (- reach h' f) h' k \<longrightarrow> factor_at k c = factor_at h' c) \<and>
         (\<forall>new_values. factor_at (fst (update_values_h h' c new_values)) f = factor_at h' f) \<and>
         (\<forall>new_values. factor_at (fst (update_values_h h' f new_values)) c = factor_at h' c)"
proof -
  from copy_h_props [OF al cp]
  have e: "extends h h'" and rc: "reach h' c \<subseteq> {next_addr h..<next_addr h'}"
    and c: "copy (factor_at h f) = Inr (factor_at h' c)" by simp_all
  note ef = extends_factor [OF e al]
  have rf: "reach h' f \<subseteq> {..<next_addr h}" using al by (simp add: ef(2) allocated_def)
  have "{next_addr h..<next_addr h'} \<inter> {..<next_addr h} = {}" by auto
  with rc rf have disj: "reach h' c \<inter> reach h' f = {}" by blast
  have alc: "allocated h' c" using rc by (auto simp: allocated_def)
  have cc: "c \<in> reach h' c" and ff: "f \<in> reach h' f" by (simp_all add: reach_def)
  have cf: "c \<notin> reach h' f" and fc: "f \<notin> reach h' c" using cc ff disj by blast+
  have sub1: "reach h' f \<subseteq> - reach h' c" and sub2: "reach h' c \<subseteq> - reach h' f"
    using disj by blast+
  have 1: "factor_at k f = factor_at h' f" if "same_on (- reach h' c) h' k" for k
    by (rule frame(1) [OF same_on_subset [OF that sub1]])
  have 2: "factor_at k c = factor_at h' c" if "same_on (- reach h' f) h' k" for k
    by (rule frame(1) [OF same_on_subset [OF that sub2]])
  have 3: "factor_at (fst (update_values_h h' c new_values)) f = factor_at h' f" for new_values
    by (rule update_values_h_other [OF ef(3) cf])
  have 4: "factor_at (fst (update_values_h h' f new_values)) c = factor_at h' c" for new_values
    by (rule update_values_h_other [OF alc fc])
  show ?thesis
    by (intro conjI allI impI) (rule disj ef(1) c 1 2 3 4, assumption?)+
qed

lemma copy_h_error:
  assumes al: "allocated h f" and cp: "copy_h h f = (h', Inl e)"
  shows "copy (factor_at h f) = Inl e"
proof -
  define fo where "fo = factors h f"
  obtain h1 names where dc: "deepcopy_state_names h (state_names_ref fo) = (h1, names)"
    by (cases "deepcopy_state_names h (state_names_ref fo)")
  have i: "init_h h1 (var_lists h1 (variables_ref fo)) (card_lists h1 (cardinality_ref fo))
             (map_option (\<lambda>r. NdArray (arrays h1 r)) (values_ref fo)) names = (h', Inl e)"
    using cp by (simp add: copy_h_def Let_def fo_def [symmetric] dc)
  have old: "\<forall>d \<in> set_option (state_names_ref fo). \<forall>l \<in> snd ` set (dicts h d). l < next_addr h"
    using al by (fastforce simp: allocated_def reach_def fo_def)
  from deepcopy_state_names_props [OF dc old]
  have dp: "extends h h1" by simp
  have f1: "factor_at h1 f = factor_at h f" using extends_factor(1) [OF dp al] .
  have fo1: "factors h1 f = fo"
    using dp al by (simp add: extends_def same_on_def allocated_def reach_def fo_def)
  have "copy (factor_at h f) = copy (factor_at h1 f)" by (simp add: f1)
  also have "\<dots> = init (var_lists h1 (variables_ref fo)) (card_lists h1 (cardinality_ref fo))
             (map_option (\<lambda>r. NdArray (arrays h1 r)) (values_ref fo))
             (state_names (factor_at h1 f))"
    by (simp add: copy_def factor_at_def fo1 option.map_comp comp_def)
  also have "\<dots> = Inl e" using i by (rule init_h_error)
  finally show ?thesis .
qed

lemma copy_h_total:
  assumes al: "allocated h f" and inv: "invariant (factor_at h f)"
    and cp: "copy_h h f = (h', res)"
  shows "\<exists>c. res = Inr c \<and> factor_at h' c = factor_at h f"
proof (cases res)
  case (Inl e)
  with copy_h_error [OF al] cp have "copy (factor_at h f) = Inl e" by simp
  with copy_invariant [OF inv] show ?thesis by simp
next
  case (Inr c)
  with copy_h_props [OF al] cp have "copy (factor_at h f) = Inr (factor_at h' c)" by simp
  with copy_invariant [OF inv] Inr show ?thesis by simp
qed

lemmas heap_eval_defs = copy_h_def deepcopy_state_names_def alloc_label_list_def alloc_dict_def
  alloc_var_list_def alloc_card_list_def alloc_array_def alloc_factor_def init_h_def
  reshape_def size_nd_def Let_def

lemma allocated_H_AB: "allocated H_AB 6"
  by (simp add: allocated_def reach_def H_AB_def)

lemma copy_h_H_AB: "snd (copy_h H_AB 6) = Inr 13"
  by (simp add: H_AB_def heap_eval_defs)

lemma factor_at_H_AB:
  "variables (factor_at H_AB 6) = [''A'', ''B''] \<and> cardinality (factor_at H_AB 6) = [2, 2] \<and>
   values_buf (factor_at H_AB 6) = Some \<lparr>shape = [2, 2], data = [1, 2, 3, 4]\<rparr>"
  by (simp add: H_AB_def factor_at_def)

lemma invariant_H_AB: "invariant (factor_at H_AB 6)"
  using factor_at_H_AB by (simp add: invariant_def shape_ok_def nd_ok_def ndim_def)

section \<open>Copies\<close>

text \<open>
  C4. For a factor that satisfies the invariants and whose objects are in the store,
  \<open>copy\<close> returns a new instance with the attributes of the factor that shares no
  object with it: the objects of the clone and the objects of the factor are disjoint
  sets of addresses, and the factor is unchanged. Hence no write to objects of the clone
  (its lists, its buffer, its \<open>state_names\<close> dictionary or a label list of it) changes
  the factor, and no write to objects of the factor changes the clone; in particular
  \<open>update_values\<close> on the clone leaves the factor with its buffer, and \<open>update_values\<close>
  on the factor leaves the clone with its own.
\<close>

theorem clone_shares_no_state:
  assumes "allocated h f" and "invariant (factor_at h f)" and "copy_h h f = (h', res)"
  shows "\<exists>c. res = Inr c \<and>
           factor_at h' c = factor_at h f \<and>
           factor_at h' f = factor_at h f \<and>
           reach h' c \<inter> reach h' f = {} \<and>
           (\<forall>k. same_on (- reach h' c) h' k \<longrightarrow> factor_at k f = factor_at h' f) \<and>
           (\<forall>k. same_on (- reach h' f) h' k \<longrightarrow> factor_at k c = factor_at h' c) \<and>
           (\<forall>new_values. factor_at (fst (update_values_h h' c new_values)) f = factor_at h' f) \<and>
           (\<forall>new_values. factor_at (fst (update_values_h h' f new_values)) c = factor_at h' c)"
proof -
  from copy_h_total [OF assms] obtain c
    where c: "res = Inr c" "factor_at h' c = factor_at h f" by blast
  have cp: "copy_h h f = (h', Inr c)" using assms(3) c(1) by simp
  note ind = copy_h_independent [OF assms(1) cp]
  show ?thesis
  proof (intro exI conjI)
    show "res = Inr c" by (rule c(1))
    show "factor_at h' c = factor_at h f" by (rule c(2))
  qed (use ind in blast)+
qed

theorem clone_shares_no_state_witness:
  "allocated H_AB 6 \<and> invariant (factor_at H_AB 6) \<and>
   (\<exists>c. snd (copy_h H_AB 6) = Inr c \<and>
      reach (fst (copy_h H_AB 6)) c \<inter> reach (fst (copy_h H_AB 6)) 6 = {} \<and>
      values_buf (factor_at (fst (copy_h H_AB 6)) c)
        = Some \<lparr>shape = [2, 2], data = [1, 2, 3, 4]\<rparr> \<and>
      values_buf (factor_at (fst (update_values_h (fst (copy_h H_AB 6)) c (PyList [5, 6, 7, 8]))) 6)
        = Some \<lparr>shape = [2, 2], data = [1, 2, 3, 4]\<rparr>)"
proof -
  from clone_shares_no_state [OF allocated_H_AB invariant_H_AB prod.collapse [symmetric]]
  obtain c where c: "snd (copy_h H_AB 6) = Inr c"
    "factor_at (fst (copy_h H_AB 6)) c = factor_at H_AB 6"
    "factor_at (fst (copy_h H_AB 6)) 6 = factor_at H_AB 6"
    "reach (fst (copy_h H_AB 6)) c \<inter> reach (fst (copy_h H_AB 6)) 6 = {}"
    "\<forall>new_values. factor_at (fst (update_values_h (fst (copy_h H_AB 6)) c new_values)) 6
        = factor_at (fst (copy_h H_AB 6)) 6"
    by blast
  from c(5) have "factor_at (fst (update_values_h (fst (copy_h H_AB 6)) c (PyList [5, 6, 7, 8]))) 6
        = factor_at (fst (copy_h H_AB 6)) 6" by blast
  with c(1-4) show ?thesis
    using allocated_H_AB invariant_H_AB factor_at_H_AB by auto
qed

section \<open>Deep copies and assignments on the store\<close>

lemma names_at_fun: "names_at h = (\<lambda>d v. map_option (label_lists h) (map_of (dicts h d) v))"
  by (rule ext) (simp add: names_at_def)

lemma assign_variables_props:
  "factor_at (assign_variables h p xs) p = (factor_at h p)\<lparr>variables := xs\<rparr>"
  "next_addr (assign_variables h p xs) = Suc (next_addr h)"
  "same_on ({..<next_addr h} - {p}) h (assign_variables h p xs)"
  "reach (assign_variables h p xs) p \<subseteq> reach h p \<union> {next_addr h}"
  by (auto simp: assign_variables_def alloc_var_list_def factor_at_def names_at_fun reach_def
        same_on_def split: option.splits)

lemma assign_cardinality_props:
  "factor_at (assign_cardinality h p xs) p = (factor_at h p)\<lparr>cardinality := xs\<rparr>"
  "next_addr (assign_cardinality h p xs) = Suc (next_addr h)"
  "same_on ({..<next_addr h} - {p}) h (assign_cardinality h p xs)"
  "reach (assign_cardinality h p xs) p \<subseteq> reach h p \<union> {next_addr h}"
  by (auto simp: assign_cardinality_def alloc_card_list_def factor_at_def names_at_fun reach_def
        same_on_def split: option.splits)

lemma assign_values_props:
  "factor_at (assign_values h p a) p = (factor_at h p)\<lparr>values_buf := Some a\<rparr>"
  "next_addr (assign_values h p a) = Suc (next_addr h)"
  "same_on ({..<next_addr h} - {p}) h (assign_values h p a)"
  "reach (assign_values h p a) p \<subseteq> reach h p \<union> {next_addr h}"
  by (auto simp: assign_values_def alloc_array_def factor_at_def names_at_fun reach_def
        same_on_def split: option.splits)

lemma deepcopy_factor_props:
  assumes al: "allocated h f" and dc: "deepcopy_factor h f = (h', phi)"
  shows "extends h h' \<and> reach h' phi \<subseteq> {next_addr h..<next_addr h'} \<and>
         factor_at h' phi = factor_at h f"
proof -
  define fo where "fo = factors h f"
  have refs: "variables_ref fo < next_addr h" "cardinality_ref fo < next_addr h"
    "\<forall>a \<in> set_option (values_ref fo). a < next_addr h"
    "\<forall>d \<in> set_option (state_names_ref fo). d < next_addr h"
    "\<forall>d \<in> set_option (state_names_ref fo). \<forall>l \<in> snd ` set (dicts h d). l < next_addr h"
    using al by (fastforce simp: allocated_def reach_def fo_def)+
  obtain h1 vl where a1: "alloc_var_list h (var_lists h (variables_ref fo)) = (h1, vl)"
    by (cases "alloc_var_list h (var_lists h (variables_ref fo))")
  obtain h2 cl where a2: "alloc_card_list h1 (card_lists h1 (cardinality_ref fo)) = (h2, cl)"
    by (cases "alloc_card_list h1 (card_lists h1 (cardinality_ref fo))")
  obtain h3 ar where a3: "(case values_ref fo of
                        None \<Rightarrow> (h2, None)
                      | Some r \<Rightarrow> (let (k, r') = alloc_array h2 (arrays h2 r) in (k, Some r')))
                      = (h3, ar)"
    by (cases "(case values_ref fo of
                        None \<Rightarrow> (h2, None)
                      | Some r \<Rightarrow> (let (k, r') = alloc_array h2 (arrays h2 r) in (k, Some r')))")
  obtain h4 names where a4: "deepcopy_state_names h3 (state_names_ref fo) = (h4, names)"
    by (cases "deepcopy_state_names h3 (state_names_ref fo)")
  have a5: "alloc_factor h4 \<lparr>variables_ref = vl, cardinality_ref = cl, values_ref = ar,
            state_names_ref = names\<rparr> = (h', phi)"
    using dc by (simp add: deepcopy_factor_def Let_def fo_def [symmetric] a1 a2 a3 a4)
  from alloc_var_list_props [OF a1]
  have p1: "vl = next_addr h" "next_addr h1 = Suc (next_addr h)" "extends h h1"
    "var_lists h1 vl = var_lists h (variables_ref fo)" by auto
  from alloc_card_list_props [OF a2]
  have p2: "cl = next_addr h1" "next_addr h2 = Suc (next_addr h1)" "extends h1 h2"
    "card_lists h2 cl = card_lists h1 (cardinality_ref fo)" by auto
  have e2: "extends h h2" using p1(3) p2(3) by (rule extends_trans)
  have p3: "extends h2 h3 \<and> (\<forall>a \<in> set_option ar. next_addr h2 \<le> a \<and> a < next_addr h3) \<and>
            map_option (arrays h3) ar = map_option (arrays h2) (values_ref fo)"
  proof (cases "values_ref fo")
    case None
    with a3 show ?thesis by auto
  next
    case (Some r)
    obtain k r' where ak: "alloc_array h2 (arrays h2 r) = (k, r')"
      by (cases "alloc_array h2 (arrays h2 r)")
    with a3 Some have "h3 = k" "ar = Some r'" by simp_all
    with alloc_array_props [OF ak] Some show ?thesis by auto
  qed
  have e3: "extends h h3" using e2 p3 by (blast intro: extends_trans)
  have old3: "\<forall>d \<in> set_option (state_names_ref fo). \<forall>l \<in> snd ` set (dicts h3 d). l < next_addr h3"
  proof (intro ballI)
    fix d l assume d: "d \<in> set_option (state_names_ref fo)" and l: "l \<in> snd ` set (dicts h3 d)"
    from d refs(4) have "d < next_addr h" by simp
    then have "dicts h3 d = dicts h d" using e3 by (simp add: extends_def same_on_def)
    with l d refs(5) have "l < next_addr h" by auto
    then show "l < next_addr h3" using extends_next [OF e3] by simp
  qed
  from deepcopy_state_names_props [OF a4 old3]
  have p4: "extends h3 h4"
    "map_option (names_at h4) names = map_option (names_at h3) (state_names_ref fo)"
    "\<forall>d' \<in> set_option names. next_addr h3 \<le> d' \<and> d' < next_addr h4 \<and>
             (\<forall>l \<in> snd ` set (dicts h4 d'). next_addr h3 \<le> l \<and> l < next_addr h4)"
    by simp_all
  from alloc_factor_props [OF a5]
  have p5: "phi = next_addr h4" "next_addr h' = Suc (next_addr h4)" "extends h4 h'"
    "factors h' phi = \<lparr>variables_ref = vl, cardinality_ref = cl, values_ref = ar,
            state_names_ref = names\<rparr>" by auto
  have e4: "extends h h4" using e3 p4(1) by (rule extends_trans)
  have e: "extends h h'" using e4 p5(3) by (rule extends_trans)
  have n: "next_addr h \<le> next_addr h1" "next_addr h1 \<le> next_addr h2" "next_addr h2 \<le> next_addr h3"
    "next_addr h3 \<le> next_addr h4" "next_addr h4 \<le> next_addr h'"
    using p1(2) p2(2) p3 p4(1) p5(2) by (auto dest: extends_next)
  have e1': "extends h1 h'" using p2(3) p3 p4(1) p5(3) by (blast intro: extends_trans)
  have e2': "extends h2 h'" using p3 p4(1) p5(3) by (blast intro: extends_trans)
  have e3': "extends h3 h'" using p4(1) p5(3) by (blast intro: extends_trans)
  \<comment> \<open>the contents\<close>
  have v: "var_lists h' vl = var_lists h (variables_ref fo)"
    using e1' p1 by (simp add: extends_def same_on_def)
  have "card_lists h1 (cardinality_ref fo) = card_lists h (cardinality_ref fo)"
    using p1(3) refs(2) by (simp add: extends_def same_on_def)
  moreover have "card_lists h' cl = card_lists h2 cl"
    using e2' p2 by (simp add: extends_def same_on_def)
  ultimately have c: "card_lists h' cl = card_lists h (cardinality_ref fo)"
    using p2(4) by simp
  have a: "map_option (arrays h') ar = map_option (arrays h) (values_ref fo)"
  proof -
    have "map_option (arrays h') ar = map_option (arrays h3) ar"
      using p3 e3' by (cases ar) (auto simp: extends_def same_on_def)
    moreover have "map_option (arrays h2) (values_ref fo) = map_option (arrays h) (values_ref fo)"
      using refs(3) e2 by (cases "values_ref fo") (auto simp: extends_def same_on_def)
    ultimately show ?thesis using p3 by simp
  qed
  have s: "map_option (names_at h') names = map_option (names_at h) (state_names_ref fo)"
  proof -
    have "map_option (names_at h') names = map_option (names_at h4) names"
    proof (cases names)
      case None
      then show ?thesis by simp
    next
      case (Some d)
      have "names_at h' d = names_at h4 d"
      proof (rule names_at_same)
        show "dicts h' d = dicts h4 d"
          using p4(3) p5(3) Some by (simp add: extends_def same_on_def)
      next
        fix l assume "l \<in> snd ` set (dicts h4 d)"
        with p4(3) Some have "l < next_addr h4" by auto
        then show "label_lists h' l = label_lists h4 l" by (rule extends_label [OF p5(3)])
      qed
      with Some show ?thesis by simp
    qed
    moreover have "map_option (names_at h3) (state_names_ref fo)
                 = map_option (names_at h) (state_names_ref fo)"
    proof (cases "state_names_ref fo")
      case None
      then show ?thesis by simp
    next
      case (Some d)
      have "names_at h3 d = names_at h d"
      proof (rule names_at_same)
        show "dicts h3 d = dicts h d"
          using refs(4) e3 Some by (simp add: extends_def same_on_def)
      next
        fix l assume "l \<in> snd ` set (dicts h d)"
        with refs(5) Some have "l < next_addr h" by auto
        then show "label_lists h3 l = label_lists h l" by (rule extends_label [OF e3])
      qed
      with Some show ?thesis by simp
    qed
    ultimately show ?thesis using p4(2) by simp
  qed
  have content: "factor_at h' phi = factor_at h f"
    by (simp add: factor_at_def p5(4) v c a s fo_def [symmetric])
  \<comment> \<open>the objects of the copy are new\<close>
  have r: "reach h' phi \<subseteq> {next_addr h..<next_addr h'}"
  proof -
    have "phi \<in> {next_addr h..<next_addr h'}" using p5 n by simp
    moreover have "vl \<in> {next_addr h..<next_addr h'}" using p1 n by simp
    moreover have "cl \<in> {next_addr h..<next_addr h'}" using p2 n by simp
    moreover have "set_option ar \<subseteq> {next_addr h..<next_addr h'}"
      using p3 n by (cases ar) auto
    moreover have "(case names of None \<Rightarrow> {} | Some d \<Rightarrow> insert d (snd ` set (dicts h' d)))
                   \<subseteq> {next_addr h..<next_addr h'}"
    proof (cases names)
      case None
      then show ?thesis by simp
    next
      case (Some d)
      have "dicts h' d = dicts h4 d"
        using p4(3) p5(3) Some by (simp add: extends_def same_on_def)
      with p4(3) Some n show ?thesis by (auto simp: Some)
    qed
    ultimately show ?thesis by (simp add: reach_def p5(4))
  qed
  show ?thesis using e r content by simp
qed

lemma step_on_copy:
  assumes "extends h k" and "reach k p \<subseteq> {next_addr h..<next_addr k}"
    and "next_addr k' = Suc (next_addr k)"
    and "same_on ({..<next_addr k} - {p}) k k'"
    and "reach k' p \<subseteq> reach k p \<union> {next_addr k}"
  shows "extends h k'" and "reach k' p \<subseteq> {next_addr h..<next_addr k'}"
proof -
  have n: "next_addr h \<le> next_addr k" using assms(1) by (rule extends_next)
  have "p \<in> reach k p" by (simp add: reach_def)
  with assms(2) have "next_addr h \<le> p" by auto
  then have "{..<next_addr h} \<subseteq> {..<next_addr k} - {p}" using n by auto
  with assms(4) have "same_on {..<next_addr h} k k'" by (rule same_on_subset)
  moreover have "same_on {..<next_addr h} h k" using assms(1) by (simp add: extends_def)
  ultimately have "same_on {..<next_addr h} h k'" by (blast intro: same_on_trans)
  then show "extends h k'" using n assms(3) by (simp add: extends_def)
  have "reach k p \<union> {next_addr k} \<subseteq> {next_addr h..<next_addr k'}"
    using assms(2,3) n by auto
  with assms(5) show "reach k' p \<subseteq> {next_addr h..<next_addr k'}"
    by (rule subset_trans)
qed

lemma factor_at_fields:
  "variables (factor_at h r) = var_lists h (variables_ref (factors h r))"
  "cardinality (factor_at h r) = card_lists h (cardinality_ref (factors h r))"
  "values_buf (factor_at h r) = map_option (arrays h) (values_ref (factors h r))"
  by (simp_all add: factor_at_def)

lemma marginalize_h_refines:
  fixes h :: "('v, 's, 'a::monoid_add) heap"
  assumes al: "allocated h f" and m: "marginalize_h h f vars = (h', res)"
  shows "extends h h' \<and>
         (case res of
            Inl e \<Rightarrow> marginalize (factor_at h f) vars = Inl e
          | Inr p \<Rightarrow> marginalize (factor_at h f) vars = Inr (factor_at h' p) \<and>
                     reach h' p \<subseteq> {next_addr h..<next_addr h'})"
proof -
  define F where "F = factor_at h f"
  obtain h1 phi where dc: "deepcopy_factor h f = (h1, phi)"
    by (cases "deepcopy_factor h f")
  from deepcopy_factor_props [OF al dc]
  have e1: "extends h h1" and r1: "reach h1 phi \<subseteq> {next_addr h..<next_addr h1}"
    and c1: "factor_at h1 phi = F" by (simp_all add: F_def)
  have f1: "factor_at h1 f = F" using extends_factor(1) [OF e1 al] by (simp add: F_def)
  have sv: "var_lists h1 (variables_ref (factors h1 f)) = variables F"
    using f1 factor_at_fields(1) [of h1 f] by simp
  have pv: "var_lists h1 (variables_ref (factors h1 phi)) = variables F"
    using c1 factor_at_fields(1) [of h1 phi] by simp
  show ?thesis
  proof (cases "var_indexes_of (variables F) (variables F) vars")
    case (Inl e)
    with m have "h' = h1" "res = Inl e"
      by (simp_all add: marginalize_h_def dc Let_def sv pv)
    moreover have "marginalize F vars = Inl e"
      using Inl by (simp add: marginalize_def Let_def)
    ultimately show ?thesis using e1 by (simp add: F_def)
  next
    case (Inr var_indexes)
    define keep where "keep = filter (\<lambda>i. i \<notin> set var_indexes) [0..<length (variables F)]"
    let ?h2 = "assign_variables h1 phi (map (\<lambda>index. variables F ! index) keep)"
    note a2 = assign_variables_props [of h1 phi "map (\<lambda>index. variables F ! index) keep"]
    have e2: "extends h ?h2" and r2: "reach ?h2 phi \<subseteq> {next_addr h..<next_addr ?h2}"
      using step_on_copy [OF e1 r1 a2(2) a2(3) a2(4)] by simp_all
    have c2: "factor_at ?h2 phi = F\<lparr>variables := map (\<lambda>index. variables F ! index) keep\<rparr>"
      using a2(1) c1 by simp
    have f2: "factor_at ?h2 f = F" using extends_factor(1) [OF e2 al] by (simp add: F_def)
    have sc: "card_lists ?h2 (cardinality_ref (factors ?h2 f)) = cardinality F"
      using f2 factor_at_fields(2) [of ?h2 f] by simp
    show ?thesis
    proof (cases "mapE (\<lambda>index. if index < length (cardinality F)
                             then Inr (cardinality F ! index) else Inl IndexError) keep
                  :: 'v error + nat list")
      case (Inl e)
      with m Inr have "h' = ?h2" "res = Inl e"
        by (simp_all add: marginalize_h_def dc Let_def sv pv keep_def [symmetric] sc cong: if_cong)
      moreover have "marginalize F vars = Inl e"
        using Inl Inr by (simp add: marginalize_def Let_def keep_def [symmetric])
      ultimately show ?thesis using e2 by (simp add: F_def)
    next
      case kept: (Inr kept_cardinality)
      let ?h3 = "assign_cardinality ?h2 phi kept_cardinality"
      note a3 = assign_cardinality_props [of ?h2 phi kept_cardinality]
      have e3: "extends h ?h3" and r3: "reach ?h3 phi \<subseteq> {next_addr h..<next_addr ?h3}"
        using step_on_copy [OF e2 r2 a3(2) a3(3) a3(4)] by simp_all
      have c3: "factor_at ?h3 phi = F\<lparr>variables := map (\<lambda>index. variables F ! index) keep,
                                     cardinality := kept_cardinality\<rparr>"
        using a3(1) c2 by simp
      have pvals: "map_option (arrays ?h3) (values_ref (factors ?h3 phi)) = values_buf F"
        using c3 factor_at_fields(3) [of ?h3 phi] by simp
      show ?thesis
      proof (cases "values_ref (factors ?h3 phi)")
        case None
        have vbn: "values_buf F = None" using pvals None by simp
        from m Inr kept None
        have hr: "(h', res) = (if var_indexes = [] then (?h3, Inr phi) else (?h3, Inl ValueError))"
          by (simp add: marginalize_h_def dc Let_def sv pv keep_def [symmetric] sc cong: if_cong)
        have pure: "marginalize F vars =
                      (if var_indexes = [] then Inr (factor_at ?h3 phi) else Inl ValueError)"
          using Inr kept vbn
          by (simp add: marginalize_def Let_def keep_def [symmetric] c3)
        show ?thesis
        proof (cases "var_indexes = []")
          case True
          with hr have "h' = ?h3" "res = Inr phi" by simp_all
          moreover have "marginalize F vars = Inr (factor_at ?h3 phi)"
            using pure True by simp
          ultimately show ?thesis using e3 r3 by (simp add: F_def)
        next
          case False
          with hr have "h' = ?h3" "res = Inl ValueError" by simp_all
          moreover have "marginalize F vars = Inl ValueError"
            using pure False by simp
          ultimately show ?thesis using e3 by (simp add: F_def)
        qed
      next
        case (Some ar)
        have vb: "values_buf F = Some (arrays ?h3 ar)" using pvals Some by simp
        show ?thesis
        proof (cases "np_sum (arrays ?h3 ar) var_indexes :: 'v error + 'a ndarray")
          case (Inl e)
          with m Inr kept Some have "h' = ?h3" "res = Inl e"
            by (simp_all add: marginalize_h_def dc Let_def sv pv keep_def [symmetric] sc cong: if_cong)
          moreover have "marginalize F vars = Inl e"
            using Inr kept vb Inl by (simp add: marginalize_def Let_def keep_def [symmetric])
          ultimately show ?thesis using e3 by (simp add: F_def)
        next
          case summed: (Inr summed)
          let ?h4 = "assign_values ?h3 phi summed"
          note a4 = assign_values_props [of ?h3 phi summed]
          have e4: "extends h ?h4" and r4: "reach ?h4 phi \<subseteq> {next_addr h..<next_addr ?h4}"
            using step_on_copy [OF e3 r3 a4(2) a4(3) a4(4)] by simp_all
          have c4: "factor_at ?h4 phi = F\<lparr>variables := map (\<lambda>index. variables F ! index) keep,
                                     cardinality := kept_cardinality,
                                     values_buf := Some summed\<rparr>"
            using a4(1) c3 by simp
          from m Inr kept Some summed have "h' = ?h4" "res = Inr phi"
            by (simp_all add: marginalize_h_def dc Let_def sv pv keep_def [symmetric] sc cong: if_cong)
          moreover have "marginalize F vars = Inr (factor_at ?h4 phi)"
            using Inr kept vb summed
            by (simp add: marginalize_def Let_def keep_def [symmetric] c4)
          ultimately show ?thesis using e4 r4 by (simp add: F_def)
        qed
      qed
    qed
  qed
qed

section \<open>Marginalization on the store\<close>

text \<open>
  C7. For every factor whose objects are in the store and every list of variables,
  \<open>marginalize\<close> raises its ValueError for a variable that is not in scope
  (UnknownVariable) exactly when some entry of the list is not a variable of the factor.
  Whether it raises or returns, every object that was in the store before the call is
  unchanged afterwards: the loop and the assignments work on the deep copy. So the
  factor has its variables, its cardinalities and its values as before.
\<close>

theorem marginalize_unknown_variable:
  fixes h :: "('v, 's, 'a::monoid_add) heap"
  assumes "allocated h f" and "marginalize_h h f vars = (h', res)"
  shows "((\<exists>v. res = Inl (UnknownVariable v)) \<longleftrightarrow> \<not> set vars \<subseteq> set (variables (factor_at h f)))
         \<and> extends h h' \<and> factor_at h' f = factor_at h f"
proof -
  from marginalize_h_refines [OF assms]
  have e: "extends h h'"
    and r: "case res of
              Inl e \<Rightarrow> marginalize (factor_at h f) vars = Inl e
            | Inr p \<Rightarrow> marginalize (factor_at h f) vars = Inr (factor_at h' p) \<and>
                       reach h' p \<subseteq> {next_addr h..<next_addr h'}"
    by simp_all
  have "\<exists>v. res = Inl (UnknownVariable v)" if "\<not> set vars \<subseteq> set (variables (factor_at h f))"
  proof -
    from marginalize_unknown [OF that] obtain v
      where "marginalize (factor_at h f) vars = Inl (UnknownVariable v)" by blast
    with r show ?thesis by (cases res) simp_all
  qed
  moreover have "set vars \<subseteq> set (variables (factor_at h f)) \<Longrightarrow> res \<noteq> Inl (UnknownVariable v)" for v
    using r marginalize_known [of vars "factor_at h f" v] by (cases res) auto
  ultimately show ?thesis
    using e extends_factor(1) [OF e assms(1)] by blast
qed

theorem marginalize_unknown_variable_witness:
  "allocated H_AB 6 \<and>
   (\<exists>v. snd (marginalize_h H_AB 6 [''B'', ''Q'']) = Inl (UnknownVariable v)) \<and>
   (\<forall>v. snd (marginalize_h H_AB 6 [''B'']) \<noteq> Inl (UnknownVariable v)) \<and>
   factor_at (fst (marginalize_h H_AB 6 [''B'', ''Q''])) 6 = factor_at H_AB 6 \<and>
   factor_at (fst (marginalize_h H_AB 6 [''B''])) 6 = factor_at H_AB 6"
  using marginalize_unknown_variable [OF allocated_H_AB prod.collapse [symmetric],
          of "[''B'', ''Q'']"]
        marginalize_unknown_variable [OF allocated_H_AB prod.collapse [symmetric],
          of "[''B'']"]
        allocated_H_AB factor_at_H_AB
  by simp

text \<open>
  C10. For a populated factor that satisfies the invariants and whose objects are in the
  store, \<open>marginalize\<close> with the empty list returns a new instance with the variables,
  the cardinalities, the buffer and the state names of the factor, and the factor
  itself, like every object that was in the store, is unchanged.
\<close>

theorem marginalize_nothing:
  fixes h :: "('v, 's, 'a::monoid_add) heap"
  assumes "allocated h f" and "invariant (factor_at h f)" and "populated (factor_at h f)"
    and "marginalize_h h f [] = (h', res)"
  shows "\<exists>p. res = Inr p \<and> factor_at h' p = factor_at h f \<and> p \<notin> reach h' f \<and>
             extends h h' \<and> factor_at h' f = factor_at h f"
proof -
  from assms(3) obtain a where a: "values_buf (factor_at h f) = Some a"
    by (auto simp: populated_def)
  have pure: "marginalize (factor_at h f) [] = Inr (factor_at h f)"
    using assms(2) a by (rule marginalize_empty)
  from marginalize_h_refines [OF assms(1,4)]
  have e: "extends h h'"
    and r: "case res of
              Inl e \<Rightarrow> marginalize (factor_at h f) [] = Inl e
            | Inr p \<Rightarrow> marginalize (factor_at h f) [] = Inr (factor_at h' p) \<and>
                       reach h' p \<subseteq> {next_addr h..<next_addr h'}"
    by simp_all
  from r pure obtain p where p: "res = Inr p" "factor_at h' p = factor_at h f"
    "reach h' p \<subseteq> {next_addr h..<next_addr h'}"
    by (cases res) simp_all
  note ef = extends_factor [OF e assms(1)]
  have "p \<in> reach h' p" by (simp add: reach_def)
  with p(3) have "next_addr h \<le> p" by auto
  moreover have "reach h' f \<subseteq> {..<next_addr h}"
    using assms(1) by (simp add: ef(2) allocated_def)
  ultimately have "p \<notin> reach h' f" by auto
  with p e ef(1) show ?thesis by simp
qed

theorem marginalize_nothing_witness:
  "allocated H_AB 6 \<and> invariant (factor_at H_AB 6) \<and> populated (factor_at H_AB 6) \<and>
   (\<exists>p. snd (marginalize_h H_AB 6 []) = Inr p \<and>
        factor_at (fst (marginalize_h H_AB 6 [])) p = factor_at H_AB 6 \<and>
        factor_at (fst (marginalize_h H_AB 6 [])) 6 = factor_at H_AB 6)"
proof -
  have p: "populated (factor_at H_AB 6)"
    using factor_at_H_AB by (simp add: populated_def)
  from marginalize_nothing [OF allocated_H_AB invariant_H_AB p prod.collapse [symmetric]]
  show ?thesis using allocated_H_AB invariant_H_AB p by blast
qed

end
